theory Spec2Isabelle
  imports Complex_Main "HOL-Library.Sublist" "HOL-Library.AList" "HOL-Library.Multiset"
begin

section \<open>JSON values\<close>

text \<open>
  The logger handles plain data: what \<^verbatim>\<open>JSON.parse(JSON.stringify(data))\<close> returns.
  An object is the list of its properties in enumeration order (a JavaScript object has
  no two properties of the same key); an array is the list of its elements.
  Strings are ASCII here: \<^verbatim>\<open>toLowerCase\<close> maps \<open>A\<close>..\<open>Z\<close> only.
\<close>

datatype json =
    JNull
  | JBool bool
  | JNum rat
  | JStr string
  | JArr "json list"
  | JObj "(string \<times> json) list"

type_synonym entry = "(string \<times> json) list"

text \<open>\<^verbatim>\<open>!data\<close>: the falsy values among the plain data.\<close>

fun falsy :: "json \<Rightarrow> bool" where
  "falsy JNull = True"
| "falsy (JBool b) = (\<not> b)"
| "falsy (JNum n) = (n = 0)"
| "falsy (JStr s) = (s = [])"
| "falsy (JArr xs) = False"
| "falsy (JObj kvs) = False"

text \<open>\<^verbatim>\<open>typeof v === 'object'\<close>: objects, arrays and \<^verbatim>\<open>null\<close>.\<close>

fun typeof_object :: "json \<Rightarrow> bool" where
  "typeof_object JNull = True"
| "typeof_object (JArr xs) = True"
| "typeof_object (JObj kvs) = True"
| "typeof_object (JBool b) = False"
| "typeof_object (JNum n) = False"
| "typeof_object (JStr s) = False"

definition lower_char :: "char \<Rightarrow> char" where
  "lower_char c =
     (case map_of (zip ''ABCDEFGHIJKLMNOPQRSTUVWXYZ'' ''abcdefghijklmnopqrstuvwxyz'') c of
        Some d \<Rightarrow> d
      | None \<Rightarrow> c)"

definition toLowerCase :: "string \<Rightarrow> string" where
  "toLowerCase s = map lower_char s"

text \<open>\<^verbatim>\<open>s.includes(field)\<close>: \<open>field\<close> occurs in \<open>s\<close> as a contiguous run.\<close>

definition str_includes :: "string \<Rightarrow> string \<Rightarrow> bool" where
  "str_includes s field = sublist field s"

text \<open>Decimal digits of a natural number: the text of an array index and of a counter.\<close>

fun show_nat :: "nat \<Rightarrow> string" where
  "show_nat n =
     (if n < 10 then [''0123456789'' ! n]
      else show_nat (n div 10) @ [''0123456789'' ! (n mod 10)])"

declare show_nat.simps [simp del]

section \<open>The sanitizer (\<^verbatim>\<open>Logger.sanitize\<close>, logger.js 16-38)\<close>

definition sensitiveFields :: "string list" where
  "sensitiveFields = [''password'', ''token'', ''auth'', ''authorization'', ''jwt'', ''secret'']"

definition REDACTED :: json where
  "REDACTED = JStr ''***REDACTED***''"

text \<open>\<^verbatim>\<open>sensitiveFields.some(field => key.toLowerCase().includes(field))\<close>\<close>

definition sensitive :: "string \<Rightarrow> bool" where
  "sensitive key = list_ex (\<lambda>field. str_includes (toLowerCase key) field) sensitiveFields"

text \<open>
  \<^verbatim>\<open>recursiveSanitize\<close> mutates the copy in place; the model returns the value the copy
  holds afterwards. \<^verbatim>\<open>for (const key in obj)\<close> runs over the keys of an object and over
  the indices of an array alike (an array is of type \<^verbatim>\<open>'object'\<close> too), the index in
  its decimal text. On a value that is no object the function returns at once; on such a
  property the recursive call is not made: both leave the value as it is.
\<close>

function recursiveSanitize :: "json \<Rightarrow> json" where
  "recursiveSanitize (JObj kvs) =
     JObj (map (\<lambda>(key, v). if sensitive key then (key, REDACTED)
                             else (key, recursiveSanitize v)) kvs)"
| "recursiveSanitize (JArr xs) =
     JArr (map (\<lambda>(i, v). if sensitive (show_nat i) then REDACTED
                           else recursiveSanitize v) (enumerate 0 xs))"
| "recursiveSanitize JNull = JNull"
| "recursiveSanitize (JBool b) = JBool b"
| "recursiveSanitize (JNum n) = JNum n"
| "recursiveSanitize (JStr s) = JStr s"
  by pat_completeness auto
termination
proof (relation "measure size")
  show "wf (measure size)" by simp
next
  fix kvs :: "(string \<times> json) list" and x key v
  assume "x \<in> set kvs" "(key, v) = x"
  then have "(key, v) \<in> set kvs" by simp
  then have "size v < Suc (size_list (size_prod (\<lambda>_. 0) size) kvs)"
    by (induction kvs) auto
  then show "(v, JObj kvs) \<in> measure size" by simp
next
  fix xs :: "json list" and x i v
  assume "x \<in> set (enumerate 0 xs)" "(i, v) = x"
  then have "v \<in> set xs" by (auto simp: in_set_enumerate_eq)
  then have "size v < Suc (size_list size xs)"
    by (induction xs) auto
  then show "(v, JArr xs) \<in> measure size" by simp
qed

text \<open>
  \<^verbatim>\<open>sanitize(data)\<close>: a falsy argument is returned as it is; otherwise the deep copy
  (the identity on plain data) is sanitized and returned.
\<close>

definition sanitize :: "json \<Rightarrow> json" where
  "sanitize data = (if falsy data then data else recursiveSanitize data)"

text \<open>
  Reading a value by a path of object keys and array indices, to speak about
  "every key at every nesting depth".
\<close>

datatype step = Key string | Idx nat

fun lookup_path :: "step list \<Rightarrow> json \<Rightarrow> json option" where
  "lookup_path [] v = Some v"
| "lookup_path (Key k # p) (JObj kvs) =
     (case map_of kvs k of None \<Rightarrow> None | Some v \<Rightarrow> lookup_path p v)"
| "lookup_path (Idx i # p) (JArr xs) =
     (if i < length xs then lookup_path p (xs ! i) else None)"
| "lookup_path (s # p) v = None"

fun sensitive_step :: "step \<Rightarrow> bool" where
  "sensitive_step (Key k) = sensitive k"
| "sensitive_step (Idx i) = sensitive (show_nat i)"

section \<open>The log pipeline (\<^verbatim>\<open>Logger\<close>, logger.js)\<close>

record logging_config =
  log_url :: string
  log_source :: string
  log_userId :: string
  log_apiKey :: string

record metrics_config =
  metrics_url :: string
  metrics_source :: string
  metrics_apiKey :: string

text \<open>
  \<^verbatim>\<open>config.js\<close> is not part of the sources; the code reads \<^verbatim>\<open>config.logging\<close> and
  \<^verbatim>\<open>config.metrics\<close>, either of which may be missing. A url or key that is missing is
  the empty string here, which is falsy like it.
\<close>

record config =
  logging :: "logging_config option"
  metrics :: "metrics_config option"

text \<open>\<^verbatim>\<open>config.logging && config.logging.url\<close>\<close>

definition logging_configured :: "config \<Rightarrow> bool" where
  "logging_configured cfg =
     (case logging cfg of None \<Rightarrow> False | Some lc \<Rightarrow> log_url lc \<noteq> [])"

text \<open>The fields of the \<^verbatim>\<open>Logger\<close> object.\<close>

record logger =
  logBuffer :: "entry list"
  bufferSize :: nat
  flushInterval :: nat

text \<open>
  \<^verbatim>\<open>flush\<close> is an \<^verbatim>\<open>async\<close> function: it runs up to the \<^verbatim>\<open>fetch\<close> call inside
  \<^verbatim>\<open>sendToGrafana\<close> in one piece, is suspended there with its local \<^verbatim>\<open>logsToSend\<close>,
  and resumes when the request settles. Around the logger the state holds
  \<^item> \<open>pending\<close>: the \<^verbatim>\<open>logsToSend\<close> of every flush suspended at its \<^verbatim>\<open>await\<close>,
  \<^item> \<open>requests\<close>: the batch of every \<^verbatim>\<open>sendToGrafana\<close> call made so far (one
    \<^verbatim>\<open>fetch\<close> each; \<^verbatim>\<open>formatForLoki\<close> builds its body from the batch alone),
  \<^item> \<open>delivered\<close>: the batches whose request the backend answered with success,
  \<^item> \<open>rejected\<close>: the number of \<^verbatim>\<open>flush()\<close> calls that ended in a rejection (no caller
    awaits or catches them).
\<close>

record event_loop = logger +
  pending :: "entry list list"
  requests :: "entry list list"
  delivered :: "entry list list"
  rejected :: nat

text \<open>
  The engine the logger runs on. A call takes its arguments on the stack, so a call that
  spreads an array (\<^verbatim>\<open>f(...xs)\<close>) throws a \<^verbatim>\<open>RangeError\<close> when the array is longer
  than the engine allows: \<open>argumentLimit\<close>, which is of the order of 125000 for Node with
  its default stack.
\<close>

record engine =
  argumentLimit :: nat

text \<open>The constructor (logger.js 4-13), with nothing in flight.\<close>

definition new_Logger :: event_loop where
  "new_Logger =
     \<lparr>logBuffer = [], bufferSize = 100, flushInterval = 5000,
      pending = [], requests = [], delivered = [], rejected = 0\<rparr>"

text \<open>What \<^verbatim>\<open>await fetch(...)\<close> gives: a rejection, or a response with its status.\<close>

datatype fetch_result = NetworkError | Response nat

text \<open>\<^verbatim>\<open>response.ok\<close>: a status from 200 to 299.\<close>

fun response_ok :: "fetch_result \<Rightarrow> bool" where
  "response_ok NetworkError = False"
| "response_ok (Response status) = (200 \<le> status \<and> status \<le> 299)"

text \<open>
  \<^verbatim>\<open>flush\<close> up to its \<^verbatim>\<open>await\<close> (logger.js 147-156): the two guards, the swap of the
  buffer for an empty one, and the request.
\<close>

definition flush :: "config \<Rightarrow> event_loop \<Rightarrow> event_loop" where
  "flush cfg l =
     (if logBuffer l = [] then l
      else if \<not> logging_configured cfg then l
      else
        let logsToSend = logBuffer l in
        l\<lparr>logBuffer := [],
          pending := pending l @ [logsToSend],
          requests := requests l @ [logsToSend]\<rparr>)"

text \<open>
  The rest of \<^verbatim>\<open>flush\<close> (logger.js 156-161), when the request of the \<open>i\<close>-th suspended
  flush settles with \<open>r\<close>: \<^verbatim>\<open>sendToGrafana\<close> throws on a rejection and on a response
  that is not ok, and the handler puts the batch back with
  \<^verbatim>\<open>this.logBuffer.unshift(...logsToSend)\<close>. That call takes every record of the batch as
  an argument: for a batch beyond the engine's limit it throws inside the handler, nothing
  is put back, and the \<^verbatim>\<open>flush()\<close> rejects.
\<close>

definition settle :: "engine \<Rightarrow> nat \<Rightarrow> fetch_result \<Rightarrow> event_loop \<Rightarrow> event_loop" where
  "settle eng i r l =
     (if i < length (pending l) then
        let logsToSend = pending l ! i;
            l' = l\<lparr>pending := take i (pending l) @ drop (Suc i) (pending l)\<rparr>
        in if response_ok r then l'\<lparr>delivered := delivered l' @ [logsToSend]\<rparr>
           else if length logsToSend \<le> argumentLimit eng
           then l'\<lparr>logBuffer := logsToSend @ logBuffer l'\<rparr>
           else l'\<lparr>rejected := rejected l' + 1\<rparr>
      else l)"

text \<open>
  An object literal defines its properties from left to right; a key defined again keeps
  its place and takes the new value.
\<close>

definition object_literal :: "(string \<times> json) list \<Rightarrow> entry" where
  "object_literal props = foldl (\<lambda>obj (k, v). AList.update k v obj) [] props"

text \<open>
  \<^verbatim>\<open>...value\<close> inside an object literal: the own properties of an object, the indexed
  elements of an array, the indexed characters of a string, nothing otherwise.
\<close>

fun spread :: "json \<Rightarrow> (string \<times> json) list" where
  "spread (JObj kvs) = kvs"
| "spread (JArr xs) = map (\<lambda>(i, v). (show_nat i, v)) (enumerate 0 xs)"
| "spread (JStr s) = map (\<lambda>(i, c). (show_nat i, JStr [c])) (enumerate 0 s)"
| "spread JNull = []"
| "spread (JBool b) = []"
| "spread (JNum n) = []"

text \<open>
  The record built by \<^verbatim>\<open>log\<close> (logger.js 42-50). \<open>now\<close> is the text of
  \<^verbatim>\<open>new Date().toISOString()\<close>; \<open>details\<close> is \<open>None\<close> when the argument is left out.
\<close>

definition logEntry :: "string \<Rightarrow> string \<Rightarrow> string \<Rightarrow> string \<Rightarrow> json option \<Rightarrow> entry" where
  "logEntry now level ltype message details =
     (let sanitizedDetails = sanitize (case details of None \<Rightarrow> JObj [] | Some d \<Rightarrow> d)
      in object_literal
           ([(''level'', JStr level), (''type'', JStr ltype), (''message'', JStr message)]
            @ spread sanitizedDetails
            @ [(''timestamp'', JStr now)]))"

text \<open>\<^verbatim>\<open>log\<close> (logger.js 41-64), named \<open>log_record\<close> beside the logarithm of the library; the
  console output is left out.\<close>

definition log_record :: "config \<Rightarrow> string \<Rightarrow> string \<Rightarrow> string \<Rightarrow> string \<Rightarrow> json option
                   \<Rightarrow> event_loop \<Rightarrow> event_loop" where
  "log_record cfg now level ltype message details l =
     (let l' = l\<lparr>logBuffer := logBuffer l @ [logEntry now level ltype message details]\<rparr>
      in if length (logBuffer l') \<ge> bufferSize l' then flush cfg l' else l')"

text \<open>
  What can happen to the logger, one callback at a time: a call of \<^verbatim>\<open>log\<close>, a call of
  \<^verbatim>\<open>flush\<close> by the timer or an exit handler, and the settling of a request.
\<close>

datatype event =
    Log string string string string "json option"
  | Flush
  | Settle nat fetch_result

fun step_event :: "engine \<Rightarrow> config \<Rightarrow> event_loop \<Rightarrow> event \<Rightarrow> event_loop" where
  "step_event eng cfg l (Log now level ltype message details) =
     log_record cfg now level ltype message details l"
| "step_event eng cfg l Flush = flush cfg l"
| "step_event eng cfg l (Settle i r) = settle eng i r l"

definition run :: "engine \<Rightarrow> config \<Rightarrow> event_loop \<Rightarrow> event list \<Rightarrow> event_loop" where
  "run eng cfg l evs = foldl (step_event eng cfg) l evs"

text \<open>The records that the \<^verbatim>\<open>log\<close> calls of a run create, in order.\<close>

fun logged :: "event list \<Rightarrow> entry list" where
  "logged [] = []"
| "logged (Log now level ltype message details # evs) =
     logEntry now level ltype message details # logged evs"
| "logged (ev # evs) = logged evs"

fun is_Log :: "event \<Rightarrow> bool" where
  "is_Log (Log now level ltype message details) = True"
| "is_Log ev = False"

section \<open>Numbers\<close>

text \<open>
  A JavaScript number is an IEEE 754 double. The counters below only ever hold whole
  numbers, which a double carries exactly up to \<open>2^53\<close>: they are modelled as \<open>nat\<close> and
  \<open>int\<close>. The revenue and the latencies are fractions, so their arithmetic is modelled with
  its rounding: a finite double is the rational it denotes (the sign of zero is not kept).
\<close>

datatype jsnum = Fin rat | PosInf | NegInf | NaN

definition pow2 :: "int \<Rightarrow> rat" where
  "pow2 k = (if 0 \<le> k then 2 ^ nat k else 1 / 2 ^ nat (- k))"

text \<open>The number of binary digits of a positive integer.\<close>

function bits :: "int \<Rightarrow> nat" where
  "bits p = (if p \<le> 0 then 0 else Suc (bits (p div 2)))"
  by pat_completeness auto
termination
  by (relation "measure nat") auto

declare bits.simps [simp del]

text \<open>For \<open>x > 0\<close>, the exponent \<open>e\<close> with \<open>2^e \<le> x < 2^(e+1)\<close>.\<close>

definition ilog2 :: "rat \<Rightarrow> int" where
  "ilog2 x = (if 1 \<le> x then int (bits \<lfloor>x\<rfloor>) - 1 else - int (bits (\<lceil>1 / x\<rceil> - 1)))"

definition round_half_even :: "rat \<Rightarrow> int" where
  "round_half_even q =
     (let f = \<lfloor>q\<rfloor>; r = q - of_int f
      in if r < 1 / 2 then f else if 1 / 2 < r then f + 1 else if f mod 2 = 0 then f else f + 1)"

text \<open>
  Rounding a rational to the nearest double, ties to the even significand: 53 significant
  bits, the exponent at least \<open>-1022\<close> (below that the spacing stays \<open>2^(-1074)\<close>), and
  an infinity from \<open>2^1024\<close> on.
\<close>

definition round_double :: "rat \<Rightarrow> jsnum" where
  "round_double x =
     (if x = 0 then Fin 0
      else
        let a = \<bar>x\<bar>;
            e = max (ilog2 a) (- 1022);
            ulp = pow2 (e - 52);
            y = of_int (round_half_even (a / ulp)) * ulp
        in if pow2 1024 \<le> y then (if x < 0 then NegInf else PosInf)
           else Fin (if x < 0 then - y else y))"

text \<open>The operator \<^verbatim>\<open>+\<close> on numbers.\<close>

fun js_add :: "jsnum \<Rightarrow> jsnum \<Rightarrow> jsnum" where
  "js_add NaN y = NaN"
| "js_add x NaN = NaN"
| "js_add PosInf NegInf = NaN"
| "js_add NegInf PosInf = NaN"
| "js_add PosInf y = PosInf"
| "js_add x PosInf = PosInf"
| "js_add NegInf y = NegInf"
| "js_add x NegInf = NegInf"
| "js_add (Fin a) (Fin b) = round_double (a + b)"

text \<open>\<^verbatim>\<open>x / n\<close> for the length \<open>n > 0\<close> of an array.\<close>

fun js_div_length :: "jsnum \<Rightarrow> nat \<Rightarrow> jsnum" where
  "js_div_length (Fin a) n = round_double (a / of_nat n)"
| "js_div_length x n = x"

text \<open>The truth value of a number: \<open>0\<close> and \<^verbatim>\<open>NaN\<close> are falsy.\<close>

fun truthy :: "jsnum \<Rightarrow> bool" where
  "truthy NaN = False"
| "truthy (Fin r) = (r \<noteq> 0)"
| "truthy PosInf = True"
| "truthy NegInf = True"

definition show_int :: "int \<Rightarrow> string" where
  "show_int i = (if i < 0 then ''-'' @ show_nat (nat (- i)) else show_nat (nat i))"

text \<open>
  \<^verbatim>\<open>x.toFixed(f)\<close> after ECMA-262: the integer \<open>n\<close> nearest to \<open>x * 10^f\<close> (the larger
  one of two), written with \<open>f\<close> digits after the point. From \<open>10^21\<close> on the built-in
  gives the exponent notation of the number instead, which is the parameter \<open>big\<close> here.
  The code calls it with \<open>f = 2\<close> and \<open>f = 4\<close> (beyond \<open>f = 100\<close> the built-in raises).
\<close>

definition toFixed :: "(rat \<Rightarrow> string) \<Rightarrow> nat \<Rightarrow> jsnum \<Rightarrow> string" where
  "toFixed big f x =
     (case x of
        NaN \<Rightarrow> ''NaN''
      | PosInf \<Rightarrow> ''Infinity''
      | NegInf \<Rightarrow> ''-Infinity''
      | Fin r \<Rightarrow>
          (let s = (if r < 0 then ''-'' else []);
               a = \<bar>r\<bar>
           in if 10 ^ 21 \<le> a then s @ big a
              else
                let m = show_nat (nat \<lfloor>a * 10 ^ f + 1 / 2\<rfloor>);
                    z = (if f \<noteq> 0 \<and> length m \<le> f
                         then replicate (f + 1 - length m) (CHR ''0'') @ m else m)
                in if f \<noteq> 0
                   then s @ take (length z - f) z @ ''.'' @ drop (length z - f) z
                   else s @ z))"

section \<open>The metric aggregator (\<^verbatim>\<open>Metrics\<close>, metrics.js)\<close>

text \<open>
  The fields of the \<^verbatim>\<open>Metrics\<close> object. \<open>activeUsers\<close> is a \<^verbatim>\<open>Set\<close>: its members in
  the order of insertion, each once. A user id is a number; \<open>None\<close> is an absent one.
\<close>

record metrics_state =
  totalRequests :: nat
  getRequests :: nat
  postRequests :: nat
  putRequests :: nat
  deleteRequests :: nat
  activeUsers :: "nat list"
  authAttempts :: nat
  authSuccesses :: nat
  authFailures :: nat
  pizzasSold :: int
  pizzaCreationFails :: int
  revenue :: jsnum
  serviceLatencies :: "jsnum list"
  pizzaLatencies :: "jsnum list"

text \<open>
  \<^verbatim>\<open>sendMetricsToGrafana\<close> is \<^verbatim>\<open>async\<close>: around the object the state holds the bodies
  posted so far and the number of exports suspended at their \<^verbatim>\<open>await\<close>.
\<close>

record metrics_loop = metrics_state +
  posted :: "string list"
  awaiting :: nat

definition new_Metrics :: metrics_loop where
  "new_Metrics =
     \<lparr>totalRequests = 0, getRequests = 0, postRequests = 0, putRequests = 0, deleteRequests = 0,
      activeUsers = [], authAttempts = 0, authSuccesses = 0, authFailures = 0,
      pizzasSold = 0, pizzaCreationFails = 0, revenue = Fin 0,
      serviceLatencies = [], pizzaLatencies = [],
      posted = [], awaiting = 0\<rparr>"

text \<open>\<^verbatim>\<open>incrementRequests(req)\<close> (metrics.js 48-56), on \<^verbatim>\<open>req.method\<close>.\<close>

definition incrementRequests :: "string \<Rightarrow> metrics_loop \<Rightarrow> metrics_loop" where
  "incrementRequests method m =
     (let m' = m\<lparr>totalRequests := totalRequests m + 1\<rparr>
      in if method = ''GET'' then m'\<lparr>getRequests := getRequests m' + 1\<rparr>
         else if method = ''POST'' then m'\<lparr>postRequests := postRequests m' + 1\<rparr>
         else if method = ''PUT'' then m'\<lparr>putRequests := putRequests m' + 1\<rparr>
         else if method = ''DELETE'' then m'\<lparr>deleteRequests := deleteRequests m' + 1\<rparr>
         else m')"

text \<open>\<^verbatim>\<open>trackActiveUser(userId)\<close> (metrics.js 58-62).\<close>

definition trackActiveUser :: "nat option \<Rightarrow> metrics_loop \<Rightarrow> metrics_loop" where
  "trackActiveUser userId m =
     (case userId of
        None \<Rightarrow> m
      | Some u \<Rightarrow>
          if u \<noteq> 0
          then (if u \<in> set (activeUsers m) then m else m\<lparr>activeUsers := activeUsers m @ [u]\<rparr>)
          else m)"

text \<open>\<^verbatim>\<open>trackAuthAttempt(success)\<close> (metrics.js 64-71).\<close>

definition trackAuthAttempt :: "bool \<Rightarrow> metrics_loop \<Rightarrow> metrics_loop" where
  "trackAuthAttempt success m =
     (let m' = m\<lparr>authAttempts := authAttempts m + 1\<rparr>
      in if success then m'\<lparr>authSuccesses := authSuccesses m' + 1\<rparr>
         else m'\<lparr>authFailures := authFailures m' + 1\<rparr>)"

text \<open>
  \<^verbatim>\<open>trackPizzaPurchase(success, latency, pizzaCount, revenue)\<close> (metrics.js 73-84). The
  last parameter is \<open>amount\<close> here, beside the field \<open>revenue\<close>; a latency that is left out
  (\<^verbatim>\<open>undefined\<close>, falsy) is \<open>None\<close>.
\<close>

definition trackPizzaPurchase ::
    "bool \<Rightarrow> jsnum option \<Rightarrow> int \<Rightarrow> jsnum \<Rightarrow> metrics_loop \<Rightarrow> metrics_loop" where
  "trackPizzaPurchase success latency pizzaCount amount m =
     (let m' = (if success
                then m\<lparr>pizzasSold := pizzasSold m + pizzaCount,
                       revenue := js_add (revenue m) amount\<rparr>
                else m\<lparr>pizzaCreationFails := pizzaCreationFails m + pizzaCount\<rparr>)
      in case latency of
           None \<Rightarrow> m'
         | Some x \<Rightarrow>
             if truthy x then m'\<lparr>pizzaLatencies := pizzaLatencies m' @ [x]\<rparr> else m')"

text \<open>\<^verbatim>\<open>trackServiceLatency(latency)\<close> (metrics.js 86-88).\<close>

definition trackServiceLatency :: "jsnum \<Rightarrow> metrics_loop \<Rightarrow> metrics_loop" where
  "trackServiceLatency latency m = m\<lparr>serviceLatencies := serviceLatencies m @ [latency]\<rparr>"

text \<open>
  What an export reads from outside the object: the texts that
  \<^verbatim>\<open>getCpuUsagePercentage()\<close> and \<^verbatim>\<open>getMemoryUsagePercentage()\<close> return, and the
  engine's exponent notation for \<^verbatim>\<open>toFixed\<close>.
\<close>

record host =
  cpuUsagePercentage :: string
  memoryUsagePercentage :: string
  exponentNotation :: "rat \<Rightarrow> string"

text \<open>\<^verbatim>\<open>config.metrics && config.metrics.url && config.metrics.apiKey\<close>\<close>

definition metrics_configured :: "config \<Rightarrow> bool" where
  "metrics_configured cfg =
     (case metrics cfg of
        None \<Rightarrow> False
      | Some mc \<Rightarrow> metrics_url mc \<noteq> [] \<and> metrics_apiKey mc \<noteq> [])"

text \<open>The line that \<^verbatim>\<open>MetricsBuilder.addMetric\<close> pushes (metrics.js 10-13).\<close>

definition metric_line :: "string \<Rightarrow> string \<Rightarrow> string \<Rightarrow> string \<Rightarrow> string" where
  "metric_line source metricPrefix val metricType =
     metricPrefix @ '',source='' @ source @ '',type='' @ metricType @ '' value='' @ val"

definition addMetric :: "string \<Rightarrow> string \<Rightarrow> string \<Rightarrow> string \<Rightarrow> string list \<Rightarrow> string list" where
  "addMetric source metricPrefix val metricType lines =
     lines @ [metric_line source metricPrefix val metricType]"

text \<open>\<^verbatim>\<open>this.metrics.join('\n')\<close>\<close>

fun join_lines :: "string list \<Rightarrow> string" where
  "join_lines [] = []"
| "join_lines [l] = l"
| "join_lines (l # ls) = l @ [CHR 0x0A] @ join_lines ls"

text \<open>\<^verbatim>\<open>xs.reduce((a, b) => a + b, 0) / xs.length\<close>\<close>

definition average :: "jsnum list \<Rightarrow> jsnum" where
  "average xs = js_div_length (foldl js_add (Fin 0) xs) (length xs)"

text \<open>The lines that one export builds (metrics.js 151-186).\<close>

definition buildMetrics :: "string \<Rightarrow> host \<Rightarrow> metrics_loop \<Rightarrow> string list" where
  "buildMetrics source h m =
     (let b0 = [];
          b1 = addMetric source ''http_requests_total'' (show_nat (totalRequests m)) ''counter'' b0;
          b2 = addMetric source ''http_requests_get'' (show_nat (getRequests m)) ''counter'' b1;
          b3 = addMetric source ''http_requests_post'' (show_nat (postRequests m)) ''counter'' b2;
          b4 = addMetric source ''http_requests_put'' (show_nat (putRequests m)) ''counter'' b3;
          b5 = addMetric source ''http_requests_delete'' (show_nat (deleteRequests m)) ''counter'' b4;
          b6 = addMetric source ''active_users'' (show_nat (length (activeUsers m))) ''gauge'' b5;
          b7 = addMetric source ''auth_attempts'' (show_nat (authAttempts m)) ''counter'' b6;
          b8 = addMetric source ''auth_successes'' (show_nat (authSuccesses m)) ''counter'' b7;
          b9 = addMetric source ''auth_failures'' (show_nat (authFailures m)) ''counter'' b8;
          b10 = addMetric source ''cpu_usage_percent'' (cpuUsagePercentage h) ''gauge'' b9;
          b11 = addMetric source ''memory_usage_percent'' (memoryUsagePercentage h) ''gauge'' b10;
          b12 = addMetric source ''pizzas_sold'' (show_int (pizzasSold m)) ''counter'' b11;
          b13 = addMetric source ''pizza_creation_fails'' (show_int (pizzaCreationFails m)) ''counter'' b12;
          b14 = addMetric source ''revenue'' (toFixed (exponentNotation h) 4 (revenue m)) ''counter'' b13;
          b15 = (if length (serviceLatencies m) > 0
                 then addMetric source ''service_latency_ms''
                        (toFixed (exponentNotation h) 2 (average (serviceLatencies m))) ''gauge'' b14
                 else b14);
          b16 = (if length (pizzaLatencies m) > 0
                 then addMetric source ''pizza_creation_latency_ms''
                        (toFixed (exponentNotation h) 2 (average (pizzaLatencies m))) ''gauge'' b15
                 else b15)
      in b16)"

text \<open>The two assignments that end an export (metrics.js 195-196).\<close>

definition resetLatencies :: "metrics_loop \<Rightarrow> metrics_loop" where
  "resetLatencies m = m\<lparr>serviceLatencies := [], pizzaLatencies := []\<rparr>"

text \<open>
  \<^verbatim>\<open>sendMetricsToGrafana\<close> up to its \<^verbatim>\<open>await\<close> (metrics.js 145-191): nothing happens
  without a configuration; otherwise the body is built and posted. \<^verbatim>\<open>sendToGrafana\<close>
  catches every failure of the request, so its outcome changes nothing.
\<close>

definition sendMetricsToGrafana_begin :: "config \<Rightarrow> host \<Rightarrow> metrics_loop \<Rightarrow> metrics_loop" where
  "sendMetricsToGrafana_begin cfg h m =
     (case metrics cfg of
        None \<Rightarrow> m
      | Some mc \<Rightarrow>
          if \<not> metrics_configured cfg then m
          else
            let metricsString = join_lines (buildMetrics (metrics_source mc) h m)
            in if metricsString \<noteq> []
               then m\<lparr>posted := posted m @ [metricsString], awaiting := awaiting m + 1\<rparr>
               else resetLatencies m)"

text \<open>The rest of it, once the request has settled (metrics.js 194-196).\<close>

definition sendMetricsToGrafana_resume :: "metrics_loop \<Rightarrow> metrics_loop" where
  "sendMetricsToGrafana_resume m =
     (if awaiting m = 0 then m else resetLatencies (m\<lparr>awaiting := awaiting m - 1\<rparr>))"

text \<open>A whole export with nothing running in between (metrics.js 145-197).\<close>

definition sendMetricsToGrafana :: "config \<Rightarrow> host \<Rightarrow> metrics_loop \<Rightarrow> metrics_loop" where
  "sendMetricsToGrafana cfg h m =
     (case metrics cfg of
        None \<Rightarrow> m
      | Some mc \<Rightarrow>
          if \<not> metrics_configured cfg then m
          else
            let metricsString = join_lines (buildMetrics (metrics_source mc) h m);
                m' = (if metricsString \<noteq> [] then m\<lparr>posted := posted m @ [metricsString]\<rparr> else m)
            in resetLatencies m')"

text \<open>What can happen to the aggregator, one callback at a time.\<close>

datatype metrics_event =
    IncrementRequests string
  | TrackActiveUser "nat option"
  | TrackAuthAttempt bool
  | TrackPizzaPurchase bool "jsnum option" int jsnum
  | TrackServiceLatency jsnum
  | ExportBegin host
  | ExportResume

fun metrics_step :: "config \<Rightarrow> metrics_loop \<Rightarrow> metrics_event \<Rightarrow> metrics_loop" where
  "metrics_step cfg m (IncrementRequests method) = incrementRequests method m"
| "metrics_step cfg m (TrackActiveUser userId) = trackActiveUser userId m"
| "metrics_step cfg m (TrackAuthAttempt success) = trackAuthAttempt success m"
| "metrics_step cfg m (TrackPizzaPurchase success latency pizzaCount amount) =
     trackPizzaPurchase success latency pizzaCount amount m"
| "metrics_step cfg m (TrackServiceLatency latency) = trackServiceLatency latency m"
| "metrics_step cfg m (ExportBegin h) = sendMetricsToGrafana_begin cfg h m"
| "metrics_step cfg m ExportResume = sendMetricsToGrafana_resume m"

definition metrics_run :: "config \<Rightarrow> metrics_loop \<Rightarrow> metrics_event list \<Rightarrow> metrics_loop" where
  "metrics_run cfg m evs = foldl (metrics_step cfg) m evs"

text \<open>The counters of the aggregator, side by side.\<close>

definition counters ::
    "metrics_loop \<Rightarrow> nat \<times> nat \<times> nat \<times> nat \<times> nat \<times> nat \<times> nat \<times> nat \<times> int \<times> int \<times> jsnum" where
  "counters m =
     (totalRequests m, getRequests m, postRequests m, putRequests m, deleteRequests m,
      authAttempts m, authSuccesses m, authFailures m,
      pizzasSold m, pizzaCreationFails m, revenue m)"

text \<open>The amounts of the successful purchases of a run, in order.\<close>

fun revenues :: "metrics_event list \<Rightarrow> jsnum list" where
  "revenues [] = []"
| "revenues (TrackPizzaPurchase success latency pizzaCount amount # evs) =
     (if success then amount # revenues evs else revenues evs)"
| "revenues (ev # evs) = revenues evs"

text \<open>The calls of \<^verbatim>\<open>incrementRequests\<close> in a run whose method is none of the four.\<close>

fun unrecognized :: "metrics_event \<Rightarrow> bool" where
  "unrecognized (IncrementRequests method) =
     (method \<noteq> ''GET'' \<and> method \<noteq> ''POST'' \<and> method \<noteq> ''PUT'' \<and> method \<noteq> ''DELETE'')"
| "unrecognized ev = False"

text \<open>The ids that the calls of \<^verbatim>\<open>trackActiveUser\<close> in a run add: the truthy ones.\<close>

fun tracked_ids :: "metrics_event list \<Rightarrow> nat list" where
  "tracked_ids [] = []"
| "tracked_ids (TrackActiveUser (Some u) # evs) = (if u \<noteq> 0 then u # tracked_ids evs else tracked_ids evs)"
| "tracked_ids (ev # evs) = tracked_ids evs"

text \<open>The records of a run that are in the buffer, in a pending batch or delivered.\<close>

definition in_flight :: "event_loop \<Rightarrow> entry multiset" where
  "in_flight l = mset (logBuffer l) + mset (concat (pending l)) + mset (concat (delivered l))"

section \<open>Fixtures\<close>

definition example_config :: config where
  "example_config =
     \<lparr>logging = Some \<lparr>log_url = ''https://logs.example/loki/api/v1/push'',
                       log_source = ''jwt-pizza-service'', log_userId = ''1'', log_apiKey = ''k''\<rparr>,
      metrics = Some \<lparr>metrics_url = ''https://metrics.example/push'',
                       metrics_source = ''jwt-pizza-service'', metrics_apiKey = ''k''\<rparr>\<rparr>"

definition no_config :: config where
  "no_config = \<lparr>logging = None, metrics = None\<rparr>"

definition example_host :: host where
  "example_host =
     \<lparr>cpuUsagePercentage = ''12.50'', memoryUsagePercentage = ''40.00'',
      exponentNotation = (\<lambda>r. ''1e+21'')\<rparr>"

definition example_engine :: engine where
  "example_engine = \<lparr>argumentLimit = 125000\<rparr>"

text \<open>
  An outage of the backend: 99 \<^verbatim>\<open>log\<close> calls, then 124902 more, each of which starts a
  flush whose request fails before the next call.
\<close>

definition outage :: "event list" where
  "outage =
     replicate 99 (Log ''2026-01-01T00:00:00.000Z'' ''info'' ''http'' ''HTTP Request'' None)
     @ concat (replicate 124901
         [Log ''2026-01-01T00:00:00.000Z'' ''info'' ''http'' ''HTTP Request'' None,
          Settle 0 NetworkError])
     @ [Log ''2026-01-01T00:00:00.000Z'' ''info'' ''http'' ''HTTP Request'' None,
        Settle 0 NetworkError]"

text \<open>Two flushes in flight at once, both answered with success.\<close>

definition overlap :: "event list" where
  "overlap =
     [Log ''2026-01-01T00:00:00.000Z'' ''info'' ''http'' ''first'' None, Flush,
      Log ''2026-01-01T00:00:01.000Z'' ''info'' ''http'' ''second'' None, Flush,
      Settle 0 (Response 200), Settle 0 (Response 200)]"

section \<open>The sanitizer: proofs\<close>

subsection \<open>An array index is never a sensitive key\<close>

lemma digit_mem: "k < 10 \<Longrightarrow> ''0123456789'' ! k \<in> set ''0123456789''"
  by (rule nth_mem) simp

lemma show_nat_digits: "set (show_nat n) \<subseteq> set ''0123456789''"
proof (induction n rule: show_nat.induct)
  case (1 n)
  show ?case
  proof (cases "n < 10")
    case True
    then show ?thesis using digit_mem [of n] by (subst show_nat.simps) simp
  next
    case False
    have "''0123456789'' ! (n mod 10) \<in> set ''0123456789''"
      by (rule digit_mem) simp
    with 1 False show ?thesis by (subst show_nat.simps) simp
  qed
qed

lemma lower_char_other: "c \<notin> set ''ABCDEFGHIJKLMNOPQRSTUVWXYZ'' \<Longrightarrow> lower_char c = c"
proof -
  assume "c \<notin> set ''ABCDEFGHIJKLMNOPQRSTUVWXYZ''"
  then have "map_of (zip ''ABCDEFGHIJKLMNOPQRSTUVWXYZ'' ''abcdefghijklmnopqrstuvwxyz'') c = None"
    by (subst map_of_zip_is_None) simp_all
  then show ?thesis by (simp only: lower_char_def option.case)
qed

lemma digit_not_upper: "c \<in> set ''0123456789'' \<Longrightarrow> c \<notin> set ''ABCDEFGHIJKLMNOPQRSTUVWXYZ''"
  by auto

lemma lower_digit: "c \<in> set ''0123456789'' \<Longrightarrow> lower_char c = c"
  by (rule lower_char_other) (rule digit_not_upper)

lemma sublist_set: "sublist f s \<Longrightarrow> set f \<subseteq> set s"
  by (auto simp: sublist_def)

lemma index_not_sensitive: "\<not> sensitive (show_nat i)"
proof -
  have low: "toLowerCase (show_nat i) = show_nat i"
    unfolding toLowerCase_def using show_nat_digits [of i] lower_digit
    by (intro map_idI) auto
  have "\<not> sublist f (show_nat i)" if "f \<in> set sensitiveFields" for f
  proof
    assume "sublist f (show_nat i)"
    then have "set f \<subseteq> set ''0123456789''"
      using sublist_set show_nat_digits by blast
    with that show False by (auto simp: sensitiveFields_def)
  qed
  then show ?thesis
    by (auto simp: sensitive_def list_ex_iff str_includes_def low)
qed

lemma map_enumerate_snd: "map (\<lambda>(i, v). f v) (enumerate n xs) = map f xs"
  by (induction xs arbitrary: n) auto

lemma recursiveSanitize_JArr: "recursiveSanitize (JArr xs) = JArr (map recursiveSanitize xs)"
  by (simp add: index_not_sensitive map_enumerate_snd)

subsection \<open>The sanitizer as a function of the value\<close>

lemma sanitize_eq: "sanitize v = recursiveSanitize v"
  by (cases v) (auto simp: sanitize_def)

lemma recursiveSanitize_idem: "recursiveSanitize (recursiveSanitize v) = recursiveSanitize v"
proof (induction v rule: recursiveSanitize.induct)
  case (1 kvs)
  then show ?case by (auto simp: REDACTED_def)
next
  case (2 xs)
  have "recursiveSanitize (recursiveSanitize v) = recursiveSanitize v" if "v \<in> set xs" for v
  proof -
    from that obtain i where "i < length xs" "xs ! i = v" by (auto simp: in_set_conv_nth)
    then have "(i, v) \<in> set (enumerate 0 xs)" by (auto simp: in_set_enumerate_eq)
    then show ?thesis using 2 [of "(i, v)" i v] index_not_sensitive by simp
  qed
  then show ?case unfolding recursiveSanitize_JArr by simp
qed simp_all

lemma sanitize_idem: "sanitize (sanitize v) = sanitize v"
  by (simp add: sanitize_eq recursiveSanitize_idem)

lemma map_of_sanitized:
  "map_of (map (\<lambda>(key, v). if sensitive key then (key, REDACTED)
                             else (key, recursiveSanitize v)) kvs) k =
   (case map_of kvs k of None \<Rightarrow> None
    | Some v \<Rightarrow> Some (if sensitive k then REDACTED else recursiveSanitize v))"
  by (induction kvs) auto

lemma lookup_clean_path:
  "lookup_path p v = Some x \<Longrightarrow> \<not> list_ex sensitive_step p \<Longrightarrow>
   lookup_path p (recursiveSanitize v) = Some (recursiveSanitize x)"
proof (induction p v rule: lookup_path.induct)
  case (2 k p kvs)
  then show ?case by (auto simp: map_of_sanitized split: option.splits)
next
  case (3 i p xs)
  then show ?case unfolding recursiveSanitize_JArr by (auto split: if_splits)
qed auto

lemma lookup_sensitive_key:
  "lookup_path (p @ [Key k]) v = Some x \<Longrightarrow> \<not> list_ex sensitive_step p \<Longrightarrow> sensitive k \<Longrightarrow>
   lookup_path (p @ [Key k]) (recursiveSanitize v) = Some REDACTED"
proof (induction p v rule: lookup_path.induct)
  case (1 v)
  then show ?case by (cases v) (auto simp: map_of_sanitized split: option.splits)
next
  case (2 k' p kvs)
  then show ?case by (auto simp: map_of_sanitized split: option.splits)
next
  case (3 i p xs)
  then show ?case unfolding recursiveSanitize_JArr by (auto split: if_splits)
qed auto

lemma primitive_untouched: "\<not> typeof_object v \<Longrightarrow> recursiveSanitize v = v"
  by (cases v) auto

lemmas sens_eval = sensitive_def sensitiveFields_def str_includes_def
        toLowerCase_def lower_char_def sublist_Cons_right

lemma not_sensitive_level: "\<not> sensitive ''level''" "\<not> sensitive ''type''" "\<not> sensitive ''message''"
  "\<not> sensitive ''timestamp''" "\<not> sensitive ''fields''"
  by (simp_all add: sensitive_def sensitiveFields_def str_includes_def
        toLowerCase_def lower_char_def sublist_Cons_right)

text \<open>
  \<^bold>\<open>C4.\<close> \<^verbatim>\<open>sanitize\<close> maps the example of the specification to the redacted
  value it names, and is idempotent. A key is sensitive when its lower-case form contains
  one of \<^verbatim>\<open>password, token, auth, authorization, jwt, secret\<close>. For every value \<open>v\<close>
  and every path into it: a sensitive key reached through keys that are not sensitive holds
  the marker afterwards, at whatever depth; and what lies at a path without a sensitive key
  is kept, sanitized in turn, so that a primitive value there is the same as before.
\<close>

theorem sanitize_redacts_sensitive_keys:
  "sanitize (JObj [(''password'', JStr ''x''),
                   (''nested'', JObj [(''token'', JStr ''y''), (''keep'', JStr ''z'')])])
     = JObj [(''password'', JStr ''***REDACTED***''),
             (''nested'', JObj [(''token'', JStr ''***REDACTED***''), (''keep'', JStr ''z'')])]
   \<and> sanitize (sanitize v) = sanitize v
   \<and> (sensitive k \<longleftrightarrow>
        (\<exists>field \<in> set [''password'', ''token'', ''auth'', ''authorization'', ''jwt'', ''secret''].
           sublist field (toLowerCase k)))
   \<and> (lookup_path (p @ [Key k]) v = Some x \<and> \<not> list_ex sensitive_step p \<and> sensitive k \<longrightarrow>
        lookup_path (p @ [Key k]) (sanitize v) = Some (JStr ''***REDACTED***''))
   \<and> (lookup_path p v = Some x \<and> \<not> list_ex sensitive_step p \<longrightarrow>
        lookup_path p (sanitize v) = Some (sanitize x)
        \<and> (\<not> typeof_object x \<longrightarrow> lookup_path p (sanitize v) = Some x))"
proof -
  have a: "sanitize (JObj [(''password'', JStr ''x''),
                   (''nested'', JObj [(''token'', JStr ''y''), (''keep'', JStr ''z'')])])
     = JObj [(''password'', JStr ''***REDACTED***''),
             (''nested'', JObj [(''token'', JStr ''***REDACTED***''), (''keep'', JStr ''z'')])]"
    by (simp add: sanitize_def REDACTED_def sens_eval)
  have b: "sensitive k \<longleftrightarrow>
        (\<exists>field \<in> set [''password'', ''token'', ''auth'', ''authorization'', ''jwt'', ''secret''].
           sublist field (toLowerCase k))"
    by (simp only: sensitive_def sensitiveFields_def str_includes_def list_ex_iff)
  have c: "lookup_path (p @ [Key k]) (sanitize v) = Some (JStr ''***REDACTED***'')"
    if "lookup_path (p @ [Key k]) v = Some x" "\<not> list_ex sensitive_step p" "sensitive k"
    using lookup_sensitive_key [OF that] by (simp add: sanitize_eq REDACTED_def)
  have d: "lookup_path p (sanitize v) = Some (sanitize x)"
    if "lookup_path p v = Some x" "\<not> list_ex sensitive_step p"
    using lookup_clean_path [OF that] by (simp add: sanitize_eq)
  have e: "\<not> typeof_object x \<Longrightarrow> sanitize x = x"
    by (simp add: sanitize_eq primitive_untouched)
  show ?thesis
    using a b c d e sanitize_idem [of v] by metis
qed

theorem sanitize_redacts_sensitive_keys_witness:
  "lookup_path ([Key ''nested''] @ [Key ''token''])
      (JObj [(''password'', JStr ''x''),
             (''nested'', JObj [(''token'', JStr ''y''), (''keep'', JStr ''z'')])]) = Some (JStr ''y'')
   \<and> \<not> list_ex sensitive_step [Key ''nested''] \<and> sensitive ''token''
   \<and> lookup_path ([Key ''nested''] @ [Key ''token''])
      (sanitize (JObj [(''password'', JStr ''x''),
             (''nested'', JObj [(''token'', JStr ''y''), (''keep'', JStr ''z'')])]))
       = Some (JStr ''***REDACTED***'')"
proof -
  have h: "lookup_path ([Key ''nested''] @ [Key ''token''])
      (JObj [(''password'', JStr ''x''),
             (''nested'', JObj [(''token'', JStr ''y''), (''keep'', JStr ''z'')])]) = Some (JStr ''y'')
   \<and> \<not> list_ex sensitive_step [Key ''nested''] \<and> sensitive ''token''"
    by (simp add: sens_eval)
  show ?thesis
    using h sanitize_redacts_sensitive_keys [of "JObj [(''password'', JStr ''x''),
             (''nested'', JObj [(''token'', JStr ''y''), (''keep'', JStr ''z'')])]"
          "''token''" "[Key ''nested'']" "JStr ''y''"]
    by blast
qed

text \<open>
  \<^bold>\<open>C5,\<close> as the code has it. The recursion of \<^verbatim>\<open>sanitize\<close> descends into every
  value of type \<^verbatim>\<open>'object'\<close>, arrays as well as mappings: an array is sanitized element
  by element, a mapping key by key, and any other value is left as it is. So an array of
  primitives is untouched, and a mapping that is an element of an array has its sensitive
  keys replaced.
\<close>

theorem sanitize_descends_into_arrays:
  "sanitize (JArr xs) = JArr (map sanitize xs)
   \<and> sanitize (JObj kvs) =
       JObj (map (\<lambda>(key, v). (key, if sensitive key then JStr ''***REDACTED***'' else sanitize v)) kvs)
   \<and> (\<not> typeof_object v \<longrightarrow> sanitize v = v)
   \<and> ((\<forall>x \<in> set xs. \<not> typeof_object x) \<longrightarrow> sanitize (JArr xs) = JArr xs)"
proof -
  have fn: "sanitize = recursiveSanitize" by (rule ext) (rule sanitize_eq)
  have a: "sanitize (JArr xs) = JArr (map sanitize xs)"
    unfolding fn by (rule recursiveSanitize_JArr)
  have b: "sanitize (JObj kvs) =
       JObj (map (\<lambda>(key, v). (key, if sensitive key then JStr ''***REDACTED***'' else sanitize v)) kvs)"
    unfolding fn by (auto simp: REDACTED_def)
  have c: "\<not> typeof_object v \<longrightarrow> sanitize v = v"
    unfolding fn by (simp add: primitive_untouched)
  have d: "(\<forall>x \<in> set xs. \<not> typeof_object x) \<longrightarrow> sanitize (JArr xs) = JArr xs"
  proof
    assume h: "\<forall>x \<in> set xs. \<not> typeof_object x"
    have "map sanitize xs = xs"
      by (rule map_idI) (simp add: h sanitize_eq primitive_untouched)
    then show "sanitize (JArr xs) = JArr xs" by (simp only: a)
  qed
  show ?thesis using a b c d by blast
qed

theorem sanitize_descends_into_arrays_witness:
  "\<not> typeof_object (JNum 1) \<and> \<not> typeof_object (JStr ''token'') \<and> \<not> typeof_object (JBool True)
   \<and> sanitize (JArr [JNum 1, JStr ''token'', JBool True]) = JArr [JNum 1, JStr ''token'', JBool True]
   \<and> \<not> typeof_object (JStr ''secret'') \<and> sanitize (JStr ''secret'') = JStr ''secret''"
proof -
  note t = sanitize_descends_into_arrays
    [of "[JNum 1, JStr ''token'', JBool True]" "[]" "JStr ''secret''"]
  have h: "\<forall>x \<in> set [JNum 1, JStr ''token'', JBool True]. \<not> typeof_object x" by simp
  have h': "\<not> typeof_object (JStr ''secret'')" by simp
  from t h have a: "sanitize (JArr [JNum 1, JStr ''token'', JBool True])
      = JArr [JNum 1, JStr ''token'', JBool True]"
    by blast
  from t h' have b: "sanitize (JStr ''secret'') = JStr ''secret''" by blast
  show ?thesis using a b by simp
qed

text \<open>
  Against C5 as stated: the object \<^verbatim>\<open>{items: [{password: "x"}]}\<close> holds a mapping only
  as an element of an array, and its \<^verbatim>\<open>password\<close> is replaced.
\<close>

theorem array_element_redacted_counterexample:
  "lookup_path [Key ''items'', Idx 0, Key ''password'']
     (JObj [(''items'', JArr [JObj [(''password'', JStr ''x'')]])]) = Some (JStr ''x'')
   \<and> lookup_path [Key ''items'', Idx 0, Key ''password'']
     (sanitize (JObj [(''items'', JArr [JObj [(''password'', JStr ''x'')]])]))
      = Some (JStr ''***REDACTED***'')"
  by (simp add: sanitize_def REDACTED_def sens_eval recursiveSanitize_JArr del: recursiveSanitize.simps(2))

section \<open>The log pipeline: proofs\<close>

lemma flush_attempt:
  "logging_configured cfg \<Longrightarrow> logBuffer l \<noteq> [] \<Longrightarrow>
   flush cfg l = l\<lparr>logBuffer := [], pending := pending l @ [logBuffer l],
                    requests := requests l @ [logBuffer l]\<rparr>"
  by (simp add: flush_def Let_def)

lemma log_below_threshold:
  "Suc (length (logBuffer l)) < bufferSize l \<Longrightarrow>
   log_record cfg now level ltype message details l =
     l\<lparr>logBuffer := logBuffer l @ [logEntry now level ltype message details]\<rparr>"
  by (simp add: log_record_def Let_def)

lemma log_at_threshold:
  "logging_configured cfg \<Longrightarrow> bufferSize l \<le> Suc (length (logBuffer l)) \<Longrightarrow>
   log_record cfg now level ltype message details l =
     l\<lparr>logBuffer := [],
       pending := pending l @ [logBuffer l @ [logEntry now level ltype message details]],
       requests := requests l @ [logBuffer l @ [logEntry now level ltype message details]]\<rparr>"
  by (simp add: log_record_def flush_def Let_def)

lemma run_Nil: "run eng cfg l [] = l"
  by (simp add: run_def)

lemma run_Cons: "run eng cfg l (ev # evs) = run eng cfg (step_event eng cfg l ev) evs"
  by (simp add: run_def)

lemma run_append: "run eng cfg l (evs @ evs') = run eng cfg (run eng cfg l evs) evs'"
  by (simp add: run_def)

lemma run_logs_below_threshold:
  "\<forall>ev \<in> set evs. is_Log ev \<Longrightarrow> length (logBuffer l) + length evs < bufferSize l \<Longrightarrow>
   run eng cfg l evs = l\<lparr>logBuffer := logBuffer l @ logged evs\<rparr>"
proof (induction evs arbitrary: l)
  case Nil
  then show ?case by (simp add: run_Nil)
next
  case (Cons ev evs)
  then obtain now level ltype message details where ev: "ev = Log now level ltype message details"
    by (cases ev) auto
  let ?l' = "l\<lparr>logBuffer := logBuffer l @ [logEntry now level ltype message details]\<rparr>"
  have "step_event eng cfg l ev = ?l'"
    using Cons.prems(2) by (simp add: ev log_below_threshold)
  moreover have "run eng cfg ?l' evs = ?l'\<lparr>logBuffer := logBuffer ?l' @ logged evs\<rparr>"
    using Cons.prems by (intro Cons.IH) auto
  ultimately show ?case by (simp add: run_Cons ev)
qed

lemma settle_failure:
  "i < length (pending l) \<Longrightarrow> \<not> response_ok r \<Longrightarrow>
   length (pending l ! i) \<le> argumentLimit eng \<Longrightarrow>
   settle eng i r l = l\<lparr>pending := take i (pending l) @ drop (Suc i) (pending l),
                          logBuffer := pending l ! i @ logBuffer l\<rparr>"
  by (simp add: settle_def Let_def)

lemma settle_overflow:
  "i < length (pending l) \<Longrightarrow> \<not> response_ok r \<Longrightarrow>
   argumentLimit eng < length (pending l ! i) \<Longrightarrow>
   settle eng i r l = l\<lparr>pending := take i (pending l) @ drop (Suc i) (pending l),
                          rejected := rejected l + 1\<rparr>"
  by (simp add: settle_def Let_def)

lemma settle_success:
  "i < length (pending l) \<Longrightarrow> response_ok r \<Longrightarrow>
   settle eng i r l = l\<lparr>pending := take i (pending l) @ drop (Suc i) (pending l),
                          delivered := delivered l @ [pending l ! i]\<rparr>"
  by (simp add: settle_def Let_def)

subsection \<open>A failed batch within the argument limit\<close>

text \<open>
  Let the buffer hold a batch of no more records than a call takes arguments, the
  destination be configured, and \<^verbatim>\<open>flush\<close> be called: it makes one request with the
  whole batch. While the request is pending, \<^verbatim>\<open>log\<close> calls append records (fewer than
  the capacity, so that none of them starts a flush of its own). When the request fails,
  the buffer holds the batch in its order, followed by the records appended meanwhile, and
  no further request has been made. The next flush makes exactly one request, with all of
  these records, and when it succeeds the buffer is empty.
\<close>

lemma failed_batch_requeued_within_limit:
  assumes cfg: "logging_configured cfg"
    and batch: "logBuffer l \<noteq> []"
    and size: "length (logBuffer l) \<le> argumentLimit eng"
    and during: "\<forall>ev \<in> set evs. is_Log ev" "length evs < bufferSize l"
    and fail: "\<not> response_ok r1" and ok: "response_ok r2"
    and l1: "l1 = run eng cfg (flush cfg l) evs"
    and l2: "l2 = settle eng (length (pending l)) r1 l1"
    and l3: "l3 = settle eng (length (pending l)) r2 (flush cfg l2)"
  shows "requests l1 = requests l @ [logBuffer l]
       \<and> logBuffer l2 = logBuffer l @ logged evs
       \<and> requests l2 = requests l @ [logBuffer l]
       \<and> pending l2 = pending l
       \<and> logBuffer l3 = []
       \<and> requests l3 = requests l @ [logBuffer l, logBuffer l @ logged evs]
       \<and> delivered l3 = delivered l @ [logBuffer l @ logged evs]"
proof -
  let ?f = "l\<lparr>logBuffer := [], pending := pending l @ [logBuffer l],
                requests := requests l @ [logBuffer l]\<rparr>"
  have f: "flush cfg l = ?f" using cfg batch by (rule flush_attempt)
  have r1: "l1 = ?f\<lparr>logBuffer := logged evs\<rparr>"
    unfolding l1 f using during by (subst run_logs_below_threshold) simp_all
  have r2: "l2 = l\<lparr>logBuffer := logBuffer l @ logged evs, requests := requests l @ [logBuffer l]\<rparr>"
    unfolding l2 r1 using fail size by (subst settle_failure) simp_all
  have f2: "flush cfg l2 = l2\<lparr>logBuffer := [], pending := pending l2 @ [logBuffer l2],
                    requests := requests l2 @ [logBuffer l2]\<rparr>"
    using cfg batch by (intro flush_attempt) (simp_all add: r2)
  have r3: "l3 = l\<lparr>logBuffer := [],
                    requests := requests l @ [logBuffer l, logBuffer l @ logged evs],
                    delivered := delivered l @ [logBuffer l @ logged evs]\<rparr>"
    unfolding l3 f2 using ok by (subst settle_success) (simp_all add: r2)
  show ?thesis by (simp add: r1 r2 r3)
qed

subsection \<open>A failed batch beyond the argument limit\<close>

text \<open>
  While the backend is down and the buffer has reached its capacity, every \<^verbatim>\<open>log\<close> call
  flushes the whole buffer, the request fails, and the batch comes back one record longer.
\<close>

lemma outage_cycle:
  assumes cfg: "logging_configured cfg" and quiet: "pending l = []"
    and full: "bufferSize l \<le> Suc (length (logBuffer l))"
    and fits: "Suc (length (logBuffer l)) \<le> argumentLimit eng"
    and fail: "\<not> response_ok r"
  shows "run eng cfg l [Log now level ltype message details, Settle 0 r] =
     l\<lparr>logBuffer := logBuffer l @ [logEntry now level ltype message details],
       requests := requests l @ [logBuffer l @ [logEntry now level ltype message details]]\<rparr>"
proof -
  let ?e = "logEntry now level ltype message details"
  let ?l1 = "l\<lparr>logBuffer := [], pending := pending l @ [logBuffer l @ [?e]],
                 requests := requests l @ [logBuffer l @ [?e]]\<rparr>"
  have a: "log_record cfg now level ltype message details l = ?l1"
    using cfg full by (rule log_at_threshold)
  have b: "settle eng 0 r ?l1 =
      ?l1\<lparr>pending := take 0 (pending ?l1) @ drop (Suc 0) (pending ?l1),
           logBuffer := pending ?l1 ! 0 @ logBuffer ?l1\<rparr>"
    using fail fits quiet by (intro settle_failure) simp_all
  show ?thesis
    using b by (simp add: run_Cons run_Nil a quiet)
qed

lemma outage_cycles:
  assumes cfg: "logging_configured cfg" and fail: "\<not> response_ok r"
  shows "pending l = [] \<Longrightarrow> bufferSize l \<le> Suc (length (logBuffer l)) \<Longrightarrow>
     length (logBuffer l) + k \<le> argumentLimit eng \<Longrightarrow>
     logBuffer (run eng cfg l (concat (replicate k [Log now level ltype message details, Settle 0 r])))
       = logBuffer l @ replicate k (logEntry now level ltype message details)
     \<and> pending (run eng cfg l (concat (replicate k [Log now level ltype message details, Settle 0 r]))) = []
     \<and> bufferSize (run eng cfg l (concat (replicate k [Log now level ltype message details, Settle 0 r])))
       = bufferSize l
     \<and> delivered (run eng cfg l (concat (replicate k [Log now level ltype message details, Settle 0 r])))
       = delivered l
     \<and> rejected (run eng cfg l (concat (replicate k [Log now level ltype message details, Settle 0 r])))
       = rejected l"
proof (induction k arbitrary: l)
  case 0
  then show ?case by (simp add: run_Nil)
next
  case (Suc k)
  let ?e = "logEntry now level ltype message details"
  let ?l1 = "l\<lparr>logBuffer := logBuffer l @ [?e], requests := requests l @ [logBuffer l @ [?e]]\<rparr>"
  have c: "run eng cfg l [Log now level ltype message details, Settle 0 r] = ?l1"
    using cfg Suc.prems fail by (intro outage_cycle) simp_all
  have s: "run eng cfg l (concat (replicate (Suc k) [Log now level ltype message details, Settle 0 r]))
      = run eng cfg ?l1 (concat (replicate k [Log now level ltype message details, Settle 0 r]))"
    using c by (simp add: run_Cons run_Nil)
  have "logBuffer (run eng cfg ?l1 (concat (replicate k [Log now level ltype message details, Settle 0 r])))
       = logBuffer ?l1 @ replicate k ?e
     \<and> pending (run eng cfg ?l1 (concat (replicate k [Log now level ltype message details, Settle 0 r]))) = []
     \<and> bufferSize (run eng cfg ?l1 (concat (replicate k [Log now level ltype message details, Settle 0 r])))
       = bufferSize ?l1
     \<and> delivered (run eng cfg ?l1 (concat (replicate k [Log now level ltype message details, Settle 0 r])))
       = delivered ?l1
     \<and> rejected (run eng cfg ?l1 (concat (replicate k [Log now level ltype message details, Settle 0 r])))
       = rejected ?l1"
    using Suc.prems by (intro Suc.IH) simp_all
  then show ?case unfolding s by (simp add: replicate_append_same)
qed

text \<open>
  Once the batch is longer than a call takes arguments, \<^verbatim>\<open>unshift(...logsToSend)\<close>
  throws inside the handler: the batch is in no buffer, pending or delivered, and the
  \<^verbatim>\<open>flush()\<close> rejects.
\<close>

lemma outage_overflow:
  assumes cfg: "logging_configured cfg" and quiet: "pending l = []"
    and full: "bufferSize l \<le> Suc (length (logBuffer l))"
    and over: "argumentLimit eng < Suc (length (logBuffer l))"
    and fail: "\<not> response_ok r"
  shows "run eng cfg l [Log now level ltype message details, Settle 0 r] =
     l\<lparr>logBuffer := [],
       requests := requests l @ [logBuffer l @ [logEntry now level ltype message details]],
       rejected := rejected l + 1\<rparr>"
proof -
  let ?e = "logEntry now level ltype message details"
  let ?l1 = "l\<lparr>logBuffer := [], pending := pending l @ [logBuffer l @ [?e]],
                 requests := requests l @ [logBuffer l @ [?e]]\<rparr>"
  have a: "log_record cfg now level ltype message details l = ?l1"
    using cfg full by (rule log_at_threshold)
  have b: "settle eng 0 r ?l1 =
      ?l1\<lparr>pending := take 0 (pending ?l1) @ drop (Suc 0) (pending ?l1),
           rejected := rejected ?l1 + 1\<rparr>"
    using fail over quiet by (intro settle_overflow) simp_all
  show ?thesis
    using b by (simp add: run_Cons run_Nil a quiet)
qed

lemma logged_replicate:
  "logged (replicate n (Log now level ltype message details))
     = replicate n (logEntry now level ltype message details)"
  by (induction n) simp_all

lemma logged_append: "logged (evs @ evs') = logged evs @ logged evs'"
  by (induction evs rule: logged.induct) simp_all

lemma logged_cycles:
  "length (logged (concat (replicate k [Log now level ltype message details, Settle i r]))) = k"
  by (induction k) simp_all

text \<open>
  \<^bold>\<open>C1\<close> fails in the code. On an engine whose calls take up to 125000 arguments, with
  the destination configured and every request failing: 99 \<^verbatim>\<open>log\<close> calls fill the
  buffer, each of the next 124901 calls flushes, fails and gets its batch back, and the
  call after them flushes a batch of 125001 records. When that request fails, nothing is
  put back: the buffer is empty, no flush is pending, nothing was ever delivered, and one
  \<^verbatim>\<open>flush()\<close> has rejected. All 125001 records are lost.
\<close>

theorem large_failed_batch_is_lost:
  "logBuffer (run example_engine example_config new_Logger outage) = []
   \<and> pending (run example_engine example_config new_Logger outage) = []
   \<and> delivered (run example_engine example_config new_Logger outage) = []
   \<and> rejected (run example_engine example_config new_Logger outage) = 1
   \<and> length (logged outage) = 125001"
proof -
  let ?L = "Log ''2026-01-01T00:00:00.000Z'' ''info'' ''http'' ''HTTP Request'' None"
  let ?e = "logEntry ''2026-01-01T00:00:00.000Z'' ''info'' ''http'' ''HTTP Request'' None"
  let ?c = "concat (replicate 124901 [?L, Settle 0 NetworkError])"
  have cfg: "logging_configured example_config"
    by (simp add: logging_configured_def example_config_def)
  have fail: "\<not> response_ok NetworkError" by simp
  define l1 where "l1 = run example_engine example_config new_Logger (replicate 99 ?L)"
  define l2 where "l2 = run example_engine example_config l1 ?c"
  have "l1 = new_Logger\<lparr>logBuffer := logBuffer new_Logger @ logged (replicate 99 ?L)\<rparr>"
    unfolding l1_def by (rule run_logs_below_threshold) (simp_all add: new_Logger_def)
  then have l1: "l1 = new_Logger\<lparr>logBuffer := replicate 99 ?e\<rparr>"
    by (simp add: logged_replicate new_Logger_def)
  have p1: "pending l1 = []" "bufferSize l1 \<le> Suc (length (logBuffer l1))"
    "length (logBuffer l1) + 124901 \<le> argumentLimit example_engine"
    by (simp_all add: l1 new_Logger_def example_engine_def)
  from outage_cycles [OF cfg fail p1, of "''2026-01-01T00:00:00.000Z''" "''info''" "''http''"
      "''HTTP Request''" None]
  have l2: "logBuffer l2 = logBuffer l1 @ replicate 124901 ?e" "pending l2 = []"
    "bufferSize l2 = bufferSize l1" "delivered l2 = delivered l1" "rejected l2 = rejected l1"
    unfolding l2_def by simp_all
  have p2: "bufferSize l2 \<le> Suc (length (logBuffer l2))"
    "argumentLimit example_engine < Suc (length (logBuffer l2))"
    by (simp_all add: l2 l1 new_Logger_def example_engine_def)
  have r: "run example_engine example_config new_Logger outage
      = run example_engine example_config l2 [?L, Settle 0 NetworkError]"
    by (simp add: outage_def run_append l1_def l2_def)
  have n: "length (logged outage) = 125001"
    by (simp add: outage_def logged_append logged_replicate logged_cycles)
  show ?thesis
    unfolding r outage_overflow [OF cfg l2(2) p2 fail]
    using n by (simp add: l2 l1 new_Logger_def)
qed

subsection \<open>Where a record is\<close>

lemma in_flight_flush: "in_flight (flush cfg l) = in_flight l"
  by (simp add: flush_def in_flight_def Let_def)

lemma in_flight_log:
  "in_flight (log_record cfg now level ltype message details l) =
   in_flight l + {#logEntry now level ltype message details#}"
  by (simp add: log_record_def Let_def in_flight_flush) (simp add: in_flight_def)

lemma concat_remove_nth:
  "i < length ps \<Longrightarrow> mset (concat (take i ps @ drop (Suc i) ps)) + mset (ps ! i) = mset (concat ps)"
proof -
  assume "i < length ps"
  then have "ps = take i ps @ ps ! i # drop (Suc i) ps" by (rule id_take_nth_drop)
  then have "mset (concat ps) = mset (concat (take i ps @ ps ! i # drop (Suc i) ps))" by simp
  then show ?thesis by simp
qed

text \<open>The settling of a request moves a batch or drops it; it never copies a record.\<close>

lemma in_flight_settle: "in_flight (settle eng i r l) \<subseteq># in_flight l"
proof (cases "i < length (pending l)")
  case True
  have drop: "mset (concat (take i (pending l) @ drop (Suc i) (pending l))) \<subseteq># mset (concat (pending l))"
    using concat_remove_nth [OF True] by (metis mset_subset_eq_add_left)
  show ?thesis
  proof (cases "response_ok r \<or> length (pending l ! i) \<le> argumentLimit eng")
    case True
    then have "in_flight (settle eng i r l) = in_flight l"
      using concat_remove_nth [OF \<open>i < length (pending l)\<close>] \<open>i < length (pending l)\<close>
      by (cases "response_ok r") (auto simp: settle_def Let_def in_flight_def ac_simps)
    then show ?thesis by simp
  next
    case False
    then have "in_flight (settle eng i r l) =
        mset (logBuffer l) + mset (concat (take i (pending l) @ drop (Suc i) (pending l)))
        + mset (concat (delivered l))"
      using \<open>i < length (pending l)\<close> by (simp add: settle_def Let_def in_flight_def)
    then show ?thesis
      using drop unfolding in_flight_def
      by (simp add: mset_subset_eq_mono_add_left_cancel mset_subset_eq_mono_add_right_cancel)
  qed
next
  case False
  then show ?thesis by (simp add: settle_def)
qed

lemma in_flight_step: "in_flight (step_event eng cfg l ev) \<subseteq># in_flight l + mset (logged [ev])"
proof (cases ev)
  case (Log now level ltype message details)
  then show ?thesis by (simp add: in_flight_log)
next
  case Flush
  then show ?thesis by (simp add: in_flight_flush)
next
  case (Settle i r)
  then show ?thesis using in_flight_settle [of eng i r l] by simp
qed

lemma logged_Cons: "mset (logged (ev # evs)) = mset (logged [ev]) + mset (logged evs)"
  by (cases ev) simp_all

lemma in_flight_run: "in_flight (run eng cfg l evs) \<subseteq># in_flight l + mset (logged evs)"
proof (induction evs arbitrary: l)
  case Nil
  then show ?case by (simp add: run_Nil)
next
  case (Cons ev evs)
  have "in_flight (run eng cfg (step_event eng cfg l ev) evs)
      \<subseteq># in_flight (step_event eng cfg l ev) + mset (logged evs)"
    by (rule Cons.IH)
  also have "\<dots> \<subseteq># (in_flight l + mset (logged [ev])) + mset (logged evs)"
    using in_flight_step [of eng cfg l ev] by (simp only: mset_subset_eq_mono_add_right_cancel)
  finally show ?case by (simp add: run_Cons logged_Cons [of ev evs] ac_simps)
qed

lemma distinct_of_submultiset: "mset xs \<subseteq># mset ys \<Longrightarrow> distinct ys \<Longrightarrow> distinct xs"
proof -
  assume sub: "mset xs \<subseteq># mset ys" and d: "distinct ys"
  from sub obtain C where "mset ys = mset xs + C" by (auto simp: mset_subset_eq_exists_conv)
  moreover obtain zs where "C = mset zs" using ex_mset [of C] by blast
  ultimately have "mset ys = mset (xs @ zs)" by simp
  then have "distinct (xs @ zs)" using d mset_eq_imp_distinct_iff by blast
  then show "distinct xs" by simp
qed

text \<open>
  Against C8 as stated: after a \<^verbatim>\<open>log\<close> call and a timer flush, whose request is still
  pending, a second \<^verbatim>\<open>log\<close> call and the next timer flush start a second request.
\<close>

theorem flushes_overlap_counterexample:
  "pending (run example_engine example_config new_Logger
      [Log ''2026-01-01T00:00:00.000Z'' ''info'' ''http'' ''first'' None, Flush,
       Log ''2026-01-01T00:00:01.000Z'' ''info'' ''http'' ''second'' None]) \<noteq> []
   \<and> length (pending (run example_engine example_config new_Logger
      [Log ''2026-01-01T00:00:00.000Z'' ''info'' ''http'' ''first'' None, Flush,
       Log ''2026-01-01T00:00:01.000Z'' ''info'' ''http'' ''second'' None, Flush])) = 2"
  by (simp add: run_def log_record_def flush_def new_Logger_def example_config_def logging_configured_def Let_def)

text \<open>
  \<^bold>\<open>C8,\<close> as the code has it. \<^verbatim>\<open>flush\<close> has no lock, and a flush may begin while
  another is pending; still no record is delivered twice. Each flush takes the whole
  buffer and leaves an empty one before it sends, so after any run of \<^verbatim>\<open>log\<close> calls,
  flushes and settled requests the records in the buffer, in the pending batches and in the
  batches that the backend has accepted are, counted with their multiplicity, among the
  records logged: no record is in two pending batches, and none is accepted twice.
\<close>

theorem records_never_duplicated:
  assumes "l = run eng cfg new_Logger evs"
  shows "mset (logBuffer l) + mset (concat (pending l)) + mset (concat (delivered l))
           \<subseteq># mset (logged evs)
       \<and> (distinct (logged evs) \<longrightarrow> distinct (logBuffer l @ concat (pending l) @ concat (delivered l)))"
proof -
  have "in_flight l \<subseteq># in_flight new_Logger + mset (logged evs)"
    unfolding assms by (rule in_flight_run)
  then have sub: "mset (logBuffer l @ concat (pending l) @ concat (delivered l)) \<subseteq># mset (logged evs)"
    by (simp add: in_flight_def new_Logger_def ac_simps)
  have "distinct (logBuffer l @ concat (pending l) @ concat (delivered l))" if "distinct (logged evs)"
    using sub that by (rule distinct_of_submultiset)
  with sub show ?thesis by (simp add: ac_simps)
qed

theorem records_never_duplicated_witness:
  "distinct (logged overlap)
   \<and> length (pending (run example_engine example_config new_Logger (take 4 overlap))) = 2
   \<and> length (delivered (run example_engine example_config new_Logger overlap)) = 2
   \<and> distinct
        (logBuffer (run example_engine example_config new_Logger overlap)
         @ concat (pending (run example_engine example_config new_Logger overlap))
         @ concat (delivered (run example_engine example_config new_Logger overlap)))"
proof -
  have d: "distinct (logged overlap)"
    by (simp add: overlap_def logEntry_def sanitize_def object_literal_def)
  have p: "length (pending (run example_engine example_config new_Logger (take 4 overlap))) = 2"
    by (simp add: overlap_def run_def log_record_def flush_def new_Logger_def example_config_def
          logging_configured_def Let_def)
  have q: "length (delivered (run example_engine example_config new_Logger overlap)) = 2"
    by (simp add: overlap_def run_def log_record_def flush_def settle_def new_Logger_def
          example_config_def logging_configured_def Let_def)
  show ?thesis
    using d p q records_never_duplicated [OF refl, of example_engine example_config overlap]
    by blast
qed

subsection \<open>The record that \<^verbatim>\<open>log\<close> builds\<close>

lemma map_of_fold_update:
  "map_of (foldl (\<lambda>obj (k, v). AList.update k v obj) acc props) = map_of acc ++ map_of (rev props)"
proof (induction props arbitrary: acc)
  case Nil
  then show ?case by simp
next
  case (Cons p props)
  obtain k v where p: "p = (k, v)" by (cases p)
  show ?case
    by (simp add: Cons.IH p update_conv' map_add_upd_left flip: map_add_assoc)
       (simp add: map_add_def fun_eq_iff split: option.splits)
qed

lemma map_of_object_literal: "map_of (object_literal props) = map_of (rev props)"
  by (simp add: object_literal_def map_of_fold_update)

lemma map_of_rev_distinct: "distinct (map fst kvs) \<Longrightarrow> map_of (rev kvs) = map_of kvs"
  by (rule map_of_inject_set[THEN iffD2]) (simp_all add: rev_map[symmetric])

lemma map_fst_sanitized:
  "map fst (map (\<lambda>(key, v). if sensitive key then (key, REDACTED)
                             else (key, recursiveSanitize v)) kvs) = map fst kvs"
  by (induction kvs) auto

lemma map_of_logEntry:
  assumes "distinct (map fst kvs)"
  shows "map_of (logEntry now level ltype message (Some (JObj kvs))) k =
     (if k = ''timestamp'' then Some (JStr now)
      else case map_of kvs k of
             Some v \<Rightarrow> Some (if sensitive k then REDACTED else sanitize v)
           | None \<Rightarrow> (if k = ''level'' then Some (JStr level)
                      else if k = ''type'' then Some (JStr ltype)
                      else if k = ''message'' then Some (JStr message)
                      else None))"
proof -
  let ?kvs' = "map (\<lambda>(key, v). if sensitive key then (key, REDACTED)
                             else (key, recursiveSanitize v)) kvs"
  have d: "distinct (map fst ?kvs')" using assms by (simp only: map_fst_sanitized)
  have e: "logEntry now level ltype message (Some (JObj kvs)) =
      object_literal ([(''level'', JStr level), (''type'', JStr ltype), (''message'', JStr message)]
            @ ?kvs' @ [(''timestamp'', JStr now)])"
    by (simp add: logEntry_def sanitize_eq)
  have m: "map_of (rev ?kvs') k = (case map_of kvs k of None \<Rightarrow> None
    | Some v \<Rightarrow> Some (if sensitive k then REDACTED else recursiveSanitize v))"
    unfolding map_of_rev_distinct [OF d] by (rule map_of_sanitized)
  show ?thesis
    unfolding e map_of_object_literal
    by (simp add: map_add_def m sanitize_eq split: option.splits)
qed

lemma logEntry_None:
  "logEntry now level ltype message None =
     [(''level'', JStr level), (''type'', JStr ltype), (''message'', JStr message),
      (''timestamp'', JStr now)]"
  by (simp add: logEntry_def sanitize_def object_literal_def)

lemma log_buffers_entry:
  "logBuffer (log_record cfg now level ltype message details l)
     = logBuffer l @ [logEntry now level ltype message details]
   \<or> (logBuffer (log_record cfg now level ltype message details l) = []
      \<and> last (requests (log_record cfg now level ltype message details l))
          = logBuffer l @ [logEntry now level ltype message details])"
  by (simp add: log_record_def flush_def Let_def)

text \<open>
  \<^bold>\<open>C9.\<close> For details that are a mapping, the record that \<^verbatim>\<open>log\<close> builds has, under
  every key, the value given first below: the creation time under \<^verbatim>\<open>timestamp\<close>, whatever
  the details say; else the sanitized value of the details under that key, if they have
  it; else the argument, for \<^verbatim>\<open>level\<close>, \<^verbatim>\<open>type\<close> and \<^verbatim>\<open>message\<close>; else nothing.
  So the details lie at the top level of the record and not under a key \<^verbatim>\<open>fields\<close>, and
  a key \<^verbatim>\<open>level\<close>, \<^verbatim>\<open>type\<close> or \<^verbatim>\<open>message\<close> of the details overrides the argument.
  Without details the record has the three arguments and the creation time. This record
  is the one that \<^verbatim>\<open>log\<close> appends to the buffer (and that leaves with the batch at once
  when the buffer has reached its capacity).
\<close>

theorem log_spreads_details:
  assumes "distinct (map fst kvs)"
  shows "(\<forall>k. map_of (logEntry now level ltype message (Some (JObj kvs))) k =
     (if k = ''timestamp'' then Some (JStr now)
      else case map_of kvs k of
             Some v \<Rightarrow> Some (if sensitive k then REDACTED else sanitize v)
           | None \<Rightarrow> (if k = ''level'' then Some (JStr level)
                      else if k = ''type'' then Some (JStr ltype)
                      else if k = ''message'' then Some (JStr message)
                      else None)))
   \<and> (\<forall>v. map_of kvs ''level'' = Some v \<longrightarrow>
          map_of (logEntry now level ltype message (Some (JObj kvs))) ''level'' = Some (sanitize v))
   \<and> (\<forall>v. map_of kvs ''type'' = Some v \<longrightarrow>
          map_of (logEntry now level ltype message (Some (JObj kvs))) ''type'' = Some (sanitize v))
   \<and> (\<forall>v. map_of kvs ''message'' = Some v \<longrightarrow>
          map_of (logEntry now level ltype message (Some (JObj kvs))) ''message'' = Some (sanitize v))
   \<and> map_of (logEntry now level ltype message (Some (JObj kvs))) ''timestamp'' = Some (JStr now)
   \<and> (map_of kvs ''fields'' = None \<longrightarrow>
          map_of (logEntry now level ltype message (Some (JObj kvs))) ''fields'' = None)
   \<and> logEntry now level ltype message None =
        [(''level'', JStr level), (''type'', JStr ltype), (''message'', JStr message),
         (''timestamp'', JStr now)]
   \<and> (logBuffer (log_record cfg now level ltype message (Some (JObj kvs)) l)
         = logBuffer l @ [logEntry now level ltype message (Some (JObj kvs))]
       \<or> (logBuffer (log_record cfg now level ltype message (Some (JObj kvs)) l) = []
          \<and> last (requests (log_record cfg now level ltype message (Some (JObj kvs)) l))
              = logBuffer l @ [logEntry now level ltype message (Some (JObj kvs))]))"
  using log_buffers_entry [of cfg now level ltype message "Some (JObj kvs)" l]
    logEntry_None [of now level ltype message]
  by (simp add: map_of_logEntry [OF assms] not_sensitive_level)

theorem log_spreads_details_witness:
  "distinct (map fst [(''level'', JStr ''debug''), (''timestamp'', JStr ''never''), (''userId'', JNum 7)])
   \<and> map_of (logEntry ''2026-01-01T00:00:00.000Z'' ''info'' ''http'' ''HTTP Request''
        (Some (JObj [(''level'', JStr ''debug''), (''timestamp'', JStr ''never''), (''userId'', JNum 7)])))
        ''level'' = Some (JStr ''debug'')
   \<and> map_of (logEntry ''2026-01-01T00:00:00.000Z'' ''info'' ''http'' ''HTTP Request''
        (Some (JObj [(''level'', JStr ''debug''), (''timestamp'', JStr ''never''), (''userId'', JNum 7)])))
        ''timestamp'' = Some (JStr ''2026-01-01T00:00:00.000Z'')
   \<and> map_of (logEntry ''2026-01-01T00:00:00.000Z'' ''info'' ''http'' ''HTTP Request''
        (Some (JObj [(''level'', JStr ''debug''), (''timestamp'', JStr ''never''), (''userId'', JNum 7)])))
        ''userId'' = Some (JNum 7)
   \<and> map_of (logEntry ''2026-01-01T00:00:00.000Z'' ''info'' ''http'' ''HTTP Request''
        (Some (JObj [(''level'', JStr ''debug''), (''timestamp'', JStr ''never''), (''userId'', JNum 7)])))
        ''fields'' = None"
proof -
  have d: "distinct (map fst [(''level'', JStr ''debug''), (''timestamp'', JStr ''never''), (''userId'', JNum 7)])"
    by simp
  have s: "\<not> sensitive ''userId''"
    by (simp add: sensitive_def sensitiveFields_def str_includes_def
        toLowerCase_def lower_char_def sublist_Cons_right)
  show ?thesis
    using log_spreads_details [OF d, of "''2026-01-01T00:00:00.000Z''" "''info''" "''http''"
        "''HTTP Request''" example_config new_Logger] d s
    by (simp add: sanitize_def not_sensitive_level)
qed

section \<open>The metric aggregator: proofs\<close>

lemma metrics_run_Nil: "metrics_run cfg m [] = m"
  by (simp add: metrics_run_def)

lemma metrics_run_Cons: "metrics_run cfg m (ev # evs) = metrics_run cfg (metrics_step cfg m ev) evs"
  by (simp add: metrics_run_def)

lemma counters_begin: "counters (sendMetricsToGrafana_begin cfg h m) = counters m"
  by (simp add: sendMetricsToGrafana_begin_def counters_def resetLatencies_def Let_def split: option.splits)

lemma counters_resume: "counters (sendMetricsToGrafana_resume m) = counters m"
  by (simp add: sendMetricsToGrafana_resume_def counters_def resetLatencies_def)

lemma activeUsers_begin: "activeUsers (sendMetricsToGrafana_begin cfg h m) = activeUsers m"
  by (simp add: sendMetricsToGrafana_begin_def resetLatencies_def Let_def split: option.splits)

lemma activeUsers_resume: "activeUsers (sendMetricsToGrafana_resume m) = activeUsers m"
  by (simp add: sendMetricsToGrafana_resume_def resetLatencies_def)

text \<open>
  \<^bold>\<open>C2.\<close> An export leaves every counter as it was (the request totals and per-method
  counts, the three auth counts, the two pizza counts and the revenue) and the set of
  active users too; when the destination is configured it empties the two latency lists,
  and without a configuration it changes nothing at all. The same holds for the two halves
  of an export, before and after its \<^verbatim>\<open>await\<close>.
\<close>

theorem export_clears_only_latencies:
  "counters (sendMetricsToGrafana cfg h m) = counters m
   \<and> activeUsers (sendMetricsToGrafana cfg h m) = activeUsers m
   \<and> (metrics_configured cfg \<longrightarrow>
        serviceLatencies (sendMetricsToGrafana cfg h m) = []
      \<and> pizzaLatencies (sendMetricsToGrafana cfg h m) = [])
   \<and> (\<not> metrics_configured cfg \<longrightarrow> sendMetricsToGrafana cfg h m = m)
   \<and> counters (sendMetricsToGrafana_begin cfg h m) = counters m
   \<and> counters (sendMetricsToGrafana_resume m) = counters m"
  by (simp add: counters_begin counters_resume)
     (simp add: sendMetricsToGrafana_def counters_def resetLatencies_def metrics_configured_def
        Let_def split: option.splits)

theorem export_clears_only_latencies_witness:
  "metrics_configured example_config
   \<and> serviceLatencies (sendMetricsToGrafana example_config example_host
        (trackServiceLatency (Fin 12) (incrementRequests ''GET'' new_Metrics))) = []
   \<and> totalRequests (sendMetricsToGrafana example_config example_host
        (trackServiceLatency (Fin 12) (incrementRequests ''GET'' new_Metrics))) = 1
   \<and> \<not> metrics_configured no_config
   \<and> sendMetricsToGrafana no_config example_host
        (trackServiceLatency (Fin 12) (incrementRequests ''GET'' new_Metrics))
       = trackServiceLatency (Fin 12) (incrementRequests ''GET'' new_Metrics)"
proof -
  have c: "metrics_configured example_config"
    by (simp add: metrics_configured_def example_config_def)
  have n: "\<not> metrics_configured no_config"
    by (simp add: metrics_configured_def no_config_def)
  have t: "totalRequests (trackServiceLatency (Fin 12) (incrementRequests ''GET'' new_Metrics)) = 1"
    by (simp add: trackServiceLatency_def incrementRequests_def new_Metrics_def)
  show ?thesis
    using c n t
      export_clears_only_latencies [of example_config example_host
        "trackServiceLatency (Fin 12) (incrementRequests ''GET'' new_Metrics)"]
      export_clears_only_latencies [of no_config example_host
        "trackServiceLatency (Fin 12) (incrementRequests ''GET'' new_Metrics)"]
    by (simp add: counters_def)
qed

text \<open>
  \<^bold>\<open>C3,\<close> as the code has it. \<^verbatim>\<open>trackPizzaPurchase\<close> adds the count to the sold counter
  and the amount to the revenue on success, and the count to the failure counter otherwise.
  It appends the latency to the pizza latency list, on success and on failure alike,
  whenever the latency is truthy: given, not zero and not \<^verbatim>\<open>NaN\<close>. A latency that is
  left out, \<open>0\<close> or \<^verbatim>\<open>NaN\<close> is not appended.
\<close>

theorem trackPizzaPurchase_effect:
  "(success \<longrightarrow>
      pizzasSold (trackPizzaPurchase success latency pizzaCount amount m) = pizzasSold m + pizzaCount
    \<and> revenue (trackPizzaPurchase success latency pizzaCount amount m) = js_add (revenue m) amount
    \<and> pizzaCreationFails (trackPizzaPurchase success latency pizzaCount amount m) = pizzaCreationFails m)
   \<and> (\<not> success \<longrightarrow>
      pizzaCreationFails (trackPizzaPurchase success latency pizzaCount amount m)
        = pizzaCreationFails m + pizzaCount
    \<and> pizzasSold (trackPizzaPurchase success latency pizzaCount amount m) = pizzasSold m
    \<and> revenue (trackPizzaPurchase success latency pizzaCount amount m) = revenue m)
   \<and> (\<forall>x. latency = Some x \<and> x \<noteq> Fin 0 \<and> x \<noteq> NaN \<longrightarrow>
      pizzaLatencies (trackPizzaPurchase success latency pizzaCount amount m) = pizzaLatencies m @ [x])
   \<and> (latency = None \<or> latency = Some (Fin 0) \<or> latency = Some NaN \<longrightarrow>
      pizzaLatencies (trackPizzaPurchase success latency pizzaCount amount m) = pizzaLatencies m)"
proof -
  have t: "truthy x \<longleftrightarrow> x \<noteq> Fin 0 \<and> x \<noteq> NaN" for x
    by (cases x) auto
  show ?thesis
    unfolding trackPizzaPurchase_def Let_def by (cases latency) (auto simp: t)
qed

theorem trackPizzaPurchase_effect_witness:
  "pizzasSold (trackPizzaPurchase True (Some (Fin 250)) 2 (Fin 1) new_Metrics) = 2
   \<and> pizzaLatencies (trackPizzaPurchase True (Some (Fin 250)) 2 (Fin 1) new_Metrics) = [Fin 250]
   \<and> pizzaCreationFails (trackPizzaPurchase False None 2 (Fin 1) new_Metrics) = 2
   \<and> pizzaLatencies (trackPizzaPurchase False None 2 (Fin 1) new_Metrics) = []"
  using trackPizzaPurchase_effect [of True "Some (Fin 250)" 2 "Fin 1" new_Metrics]
    trackPizzaPurchase_effect [of False None 2 "Fin 1" new_Metrics]
  by (simp add: new_Metrics_def)

text \<open>
  Against C3 as stated: a latency of \<open>0\<close> is given, and is not appended.
\<close>

theorem zero_latency_dropped_counterexample:
  "pizzaLatencies (trackPizzaPurchase True (Some (Fin 0)) 1 (round_double (1 / 10)) new_Metrics) = []
   \<and> pizzaLatencies (trackPizzaPurchase True (Some (Fin 0)) 1 (round_double (1 / 10)) new_Metrics)
       \<noteq> pizzaLatencies new_Metrics @ [Fin 0]"
  by (simp add: trackPizzaPurchase_def new_Metrics_def)

lemma request_step:
  "totalRequests m = getRequests m + postRequests m + putRequests m + deleteRequests m + n \<Longrightarrow>
   totalRequests (metrics_step cfg m ev) =
     getRequests (metrics_step cfg m ev) + postRequests (metrics_step cfg m ev)
     + putRequests (metrics_step cfg m ev) + deleteRequests (metrics_step cfg m ev)
     + (n + (if unrecognized ev then 1 else 0))"
proof (cases ev)
  case (IncrementRequests requestMethod)
  assume "totalRequests m = getRequests m + postRequests m + putRequests m + deleteRequests m + n"
  then show ?thesis by (simp add: IncrementRequests incrementRequests_def Let_def)
next
  case (TrackActiveUser u)
  assume "totalRequests m = getRequests m + postRequests m + putRequests m + deleteRequests m + n"
  then show ?thesis by (simp add: TrackActiveUser trackActiveUser_def split: option.splits)
next
  case (TrackAuthAttempt b)
  assume "totalRequests m = getRequests m + postRequests m + putRequests m + deleteRequests m + n"
  then show ?thesis by (simp add: TrackAuthAttempt trackAuthAttempt_def Let_def)
next
  case (TrackPizzaPurchase s l c a)
  assume "totalRequests m = getRequests m + postRequests m + putRequests m + deleteRequests m + n"
  then show ?thesis by (simp add: TrackPizzaPurchase trackPizzaPurchase_def Let_def split: option.splits)
next
  case (TrackServiceLatency l)
  assume "totalRequests m = getRequests m + postRequests m + putRequests m + deleteRequests m + n"
  then show ?thesis by (simp add: TrackServiceLatency trackServiceLatency_def)
next
  case (ExportBegin h)
  assume "totalRequests m = getRequests m + postRequests m + putRequests m + deleteRequests m + n"
  then show ?thesis using counters_begin [of cfg h m] by (simp add: ExportBegin counters_def)
next
  case ExportResume
  assume "totalRequests m = getRequests m + postRequests m + putRequests m + deleteRequests m + n"
  then show ?thesis using counters_resume [of m] by (simp add: ExportResume counters_def)
qed

lemma request_run:
  "totalRequests m = getRequests m + postRequests m + putRequests m + deleteRequests m + n \<Longrightarrow>
   totalRequests (metrics_run cfg m evs) =
     getRequests (metrics_run cfg m evs) + postRequests (metrics_run cfg m evs)
     + putRequests (metrics_run cfg m evs) + deleteRequests (metrics_run cfg m evs)
     + (n + length (filter unrecognized evs))"
proof (induction evs arbitrary: m n)
  case Nil
  then show ?case by (simp add: metrics_run_Nil)
next
  case (Cons ev evs)
  from request_step [OF Cons.prems, of cfg ev]
  have "totalRequests (metrics_run cfg (metrics_step cfg m ev) evs) =
     getRequests (metrics_run cfg (metrics_step cfg m ev) evs)
     + postRequests (metrics_run cfg (metrics_step cfg m ev) evs)
     + putRequests (metrics_run cfg (metrics_step cfg m ev) evs)
     + deleteRequests (metrics_run cfg (metrics_step cfg m ev) evs)
     + ((n + (if unrecognized ev then 1 else 0)) + length (filter unrecognized evs))"
    by (rule Cons.IH)
  then show ?case by (simp add: metrics_run_Cons)
qed

text \<open>
  \<^bold>\<open>C7.\<close> After any run of calls from the start (of \<^verbatim>\<open>incrementRequests\<close>, and of every
  other operation of the aggregator, exports among them), the total request counter is the
  sum of the four per-method counters and the number of calls with another method.
\<close>

theorem total_is_sum_of_methods:
  "totalRequests (metrics_run cfg new_Metrics evs) =
     getRequests (metrics_run cfg new_Metrics evs) + postRequests (metrics_run cfg new_Metrics evs)
     + putRequests (metrics_run cfg new_Metrics evs) + deleteRequests (metrics_run cfg new_Metrics evs)
     + length (filter unrecognized evs)"
  using request_run [of new_Metrics 0 cfg evs] by (simp add: new_Metrics_def)

theorem total_is_sum_of_methods_witness:
  "totalRequests (metrics_run example_config new_Metrics
      [IncrementRequests ''GET'', IncrementRequests ''PATCH'', IncrementRequests ''POST'']) = 3
   \<and> length (filter unrecognized
      [IncrementRequests ''GET'', IncrementRequests ''PATCH'', IncrementRequests ''POST'']) = 1"
proof -
  have "getRequests (metrics_run example_config new_Metrics
      [IncrementRequests ''GET'', IncrementRequests ''PATCH'', IncrementRequests ''POST''])
    + postRequests (metrics_run example_config new_Metrics
      [IncrementRequests ''GET'', IncrementRequests ''PATCH'', IncrementRequests ''POST''])
    + putRequests (metrics_run example_config new_Metrics
      [IncrementRequests ''GET'', IncrementRequests ''PATCH'', IncrementRequests ''POST''])
    + deleteRequests (metrics_run example_config new_Metrics
      [IncrementRequests ''GET'', IncrementRequests ''PATCH'', IncrementRequests ''POST'']) = 2"
    by (simp add: metrics_run_def incrementRequests_def new_Metrics_def)
  then show ?thesis
    using total_is_sum_of_methods [of example_config
      "[IncrementRequests ''GET'', IncrementRequests ''PATCH'', IncrementRequests ''POST'']"]
    by simp
qed

lemma activeUsers_step_other:
  "\<forall>u. ev \<noteq> TrackActiveUser u \<Longrightarrow> activeUsers (metrics_step cfg m ev) = activeUsers m"
  by (cases ev)
     (simp_all add: incrementRequests_def trackAuthAttempt_def trackPizzaPurchase_def
        trackServiceLatency_def activeUsers_begin activeUsers_resume Let_def split: option.splits)

lemma activeUsers_step:
  "set (activeUsers (metrics_step cfg m ev)) = set (activeUsers m) \<union> set (tracked_ids [ev])
   \<and> (distinct (activeUsers m) \<longrightarrow> distinct (activeUsers (metrics_step cfg m ev)))
   \<and> length (activeUsers m) \<le> length (activeUsers (metrics_step cfg m ev))"
proof (cases "\<exists>u. ev = TrackActiveUser u")
  case True
  then obtain u where ev: "ev = TrackActiveUser u" by blast
  show ?thesis by (cases u) (auto simp: ev trackActiveUser_def)
next
  case False
  then have "activeUsers (metrics_step cfg m ev) = activeUsers m"
    by (intro activeUsers_step_other) simp
  moreover from False have "tracked_ids [ev] = []" by (cases ev) auto
  ultimately show ?thesis by simp
qed

lemma tracked_ids_Cons: "set (tracked_ids (ev # evs)) = set (tracked_ids [ev]) \<union> set (tracked_ids evs)"
  by (cases "(ev # evs)" rule: tracked_ids.cases) auto

lemma activeUsers_run:
  "set (activeUsers (metrics_run cfg m evs)) = set (activeUsers m) \<union> set (tracked_ids evs)
   \<and> (distinct (activeUsers m) \<longrightarrow> distinct (activeUsers (metrics_run cfg m evs)))
   \<and> length (activeUsers m) \<le> length (activeUsers (metrics_run cfg m evs))"
proof (induction evs arbitrary: m)
  case Nil
  then show ?case by (simp add: metrics_run_Nil)
next
  case (Cons ev evs)
  show ?case
    using Cons.IH [of "metrics_step cfg m ev"] activeUsers_step [of cfg m ev]
      tracked_ids_Cons [of ev evs]
    by (auto simp: metrics_run_Cons)
qed

lemma buildMetrics_active_users:
  "metric_line source ''active_users'' (show_nat (length (activeUsers m))) ''gauge''
     \<in> set (buildMetrics source h m)"
  by (simp add: buildMetrics_def addMetric_def Let_def)

text \<open>
  \<^bold>\<open>C10.\<close> No operation of the aggregator, an export least of all, takes a member out of
  the set of active users: over any run the set only grows and its size never falls. An id
  that \<^verbatim>\<open>trackActiveUser\<close> is given (a truthy one: the function ignores \<^verbatim>\<open>undefined\<close>
  and \<open>0\<close>) is a member after every later run. From the start of the process the set holds
  exactly the ids tracked so far, each once, and an export writes its size as the
  \<^verbatim>\<open>active_users\<close> gauge.
\<close>

theorem active_users_never_cleared:
  "set (activeUsers m) \<subseteq> set (activeUsers (metrics_run cfg m evs))
   \<and> length (activeUsers m) \<le> length (activeUsers (metrics_run cfg m evs))
   \<and> (u \<noteq> 0 \<longrightarrow> u \<in> set (activeUsers (metrics_run cfg (trackActiveUser (Some u) m) evs)))
   \<and> set (activeUsers (metrics_run cfg new_Metrics evs)) = set (tracked_ids evs)
   \<and> length (activeUsers (metrics_run cfg new_Metrics evs)) = card (set (tracked_ids evs))
   \<and> metric_line source ''active_users'' (show_nat (length (activeUsers m))) ''gauge''
        \<in> set (buildMetrics source h m)"
proof -
  have a: "set (activeUsers m) \<subseteq> set (activeUsers (metrics_run cfg m evs))"
    using activeUsers_run [of cfg m evs] by blast
  have b: "length (activeUsers m) \<le> length (activeUsers (metrics_run cfg m evs))"
    using activeUsers_run [of cfg m evs] by blast
  have c: "u \<in> set (activeUsers (metrics_run cfg (trackActiveUser (Some u) m) evs))" if "u \<noteq> 0"
  proof -
    have "u \<in> set (activeUsers (trackActiveUser (Some u) m))"
      using that by (simp add: trackActiveUser_def)
    then show ?thesis
      using activeUsers_run [of cfg "trackActiveUser (Some u) m" evs] by blast
  qed
  have d: "set (activeUsers (metrics_run cfg new_Metrics evs)) = set (tracked_ids evs)"
    using activeUsers_run [of cfg new_Metrics evs] by (simp add: new_Metrics_def)
  have "distinct (activeUsers (metrics_run cfg new_Metrics evs))"
    using activeUsers_run [of cfg new_Metrics evs] by (simp add: new_Metrics_def)
  then have e: "length (activeUsers (metrics_run cfg new_Metrics evs)) = card (set (tracked_ids evs))"
    using d distinct_card by fastforce
  show ?thesis using a b c d e buildMetrics_active_users by blast
qed

theorem active_users_never_cleared_witness:
  "(7 :: nat) \<noteq> 0
   \<and> 7 \<in> set (activeUsers (metrics_run example_config (trackActiveUser (Some 7) new_Metrics)
        [ExportBegin example_host, ExportResume, TrackActiveUser (Some 7)]))
   \<and> length (activeUsers (metrics_run example_config new_Metrics
        [TrackActiveUser (Some 7), ExportBegin example_host, ExportResume, TrackActiveUser (Some 7)]))
       = card (set (tracked_ids
        [TrackActiveUser (Some 7), ExportBegin example_host, ExportResume, TrackActiveUser (Some 7)]))"
  using active_users_never_cleared [of new_Metrics example_config
      "[ExportBegin example_host, ExportResume, TrackActiveUser (Some 7)]" 7]
    active_users_never_cleared [of new_Metrics example_config
      "[TrackActiveUser (Some 7), ExportBegin example_host, ExportResume, TrackActiveUser (Some 7)]" 7]
  by simp

subsection \<open>The rounding of a double\<close>

text \<open>
  \<open>ilog2\<close> is the binary exponent, and \<open>round_double\<close> differs from the number it rounds
  by at most half the spacing of the doubles at that exponent.
\<close>

lemma bits_pos: "0 < p \<Longrightarrow> bits p = Suc (bits (p div 2))"
  by (subst bits.simps) simp

lemma bits_nonpos: "p \<le> 0 \<Longrightarrow> bits p = 0"
  by (subst bits.simps) simp

lemma bits_bounds: "0 < p \<Longrightarrow> 2 ^ (bits p - 1) \<le> p \<and> p < 2 ^ bits p"
proof (induction p rule: bits.induct)
  case (1 p)
  show ?case
  proof (cases "p = 1")
    case True
    then show ?thesis by (simp add: bits_pos bits_nonpos)
  next
    case False
    with "1.prems" have h: "0 < p div 2" by simp
    then have ih: "2 ^ (bits (p div 2) - 1) \<le> p div 2 \<and> p div 2 < 2 ^ bits (p div 2)"
      using "1.IH" "1.prems" by simp
    have b: "bits p = Suc (bits (p div 2))" using "1.prems" by (rule bits_pos)
    have pos: "0 < bits (p div 2)" using h by (simp add: bits_pos)
    then obtain k where k: "bits (p div 2) = Suc k" by (cases "bits (p div 2)") auto
    from ih have "2 * 2 ^ k \<le> 2 * (p div 2)" by (simp add: k)
    also have "\<dots> \<le> p" by simp
    finally have lo: "(2::int) ^ Suc k \<le> p" by simp
    from ih have "p div 2 + 1 \<le> 2 ^ Suc k" by (simp add: k)
    then have "2 * (p div 2) + 2 \<le> 2 * 2 ^ Suc k" by simp
    moreover have "p \<le> 2 * (p div 2) + 1" by presburger
    ultimately have hi: "p < 2 ^ Suc (Suc k)" by simp
    show ?thesis using lo hi by (simp add: b k)
  qed
qed

lemma pow2_nat: "pow2 (int n) = 2 ^ n"
  by (simp add: pow2_def)

lemma pow2_neg_nat: "pow2 (- int n) = 1 / 2 ^ n"
  by (cases "n = 0") (simp_all add: pow2_def)

lemma ilog2_bounds:
  assumes "0 < x"
  shows "pow2 (ilog2 x) \<le> x \<and> x < pow2 (ilog2 x + 1)"
proof (cases "1 \<le> x")
  case True
  define p where "p = \<lfloor>x\<rfloor>"
  have p: "0 < p" using True by (simp add: p_def)
  have px: "of_int p \<le> x" "x < of_int p + 1"
    using floor_correct [of x] by (simp_all add: p_def)
  from bits_bounds [OF p] have b: "2 ^ (bits p - 1) \<le> p" "p < 2 ^ bits p" by simp_all
  have n: "0 < bits p" using p by (simp add: bits_pos)
  have e: "ilog2 x = int (bits p - 1)" using True n by (simp add: ilog2_def p_def)
  have e1: "ilog2 x + 1 = int (bits p)" using e n by simp
  have "(of_int (2 ^ (bits p - 1)) :: rat) \<le> of_int p" using b(1) by (simp only: of_int_le_iff)
  then have "(2::rat) ^ (bits p - 1) \<le> of_int p" by simp
  then have lo: "(2::rat) ^ (bits p - 1) \<le> x" using px(1) by (rule order_trans)
  have "p + 1 \<le> 2 ^ bits p" using b(2) by simp
  then have "(of_int (p + 1) :: rat) \<le> of_int (2 ^ bits p)" by (simp only: of_int_le_iff)
  then have "of_int p + 1 \<le> (2::rat) ^ bits p" by simp
  with px(2) have hi: "x < 2 ^ bits p" by (rule less_le_trans)
  have "pow2 (ilog2 x) = 2 ^ (bits p - 1)" by (simp only: e pow2_nat)
  moreover have "pow2 (ilog2 x + 1) = 2 ^ bits p" by (simp only: e1 pow2_nat)
  ultimately show ?thesis using lo hi by simp
next
  case False
  define y where "y = 1 / x"
  define q where "q = \<lceil>y\<rceil> - 1"
  have y1: "1 < y" using False assms by (simp add: y_def)
  have q: "0 < q" using y1 by (simp add: q_def)
  have qy: "of_int q < y" "y \<le> of_int q + 1"
    using ceiling_correct [of y] by (simp_all add: q_def)
  from bits_bounds [OF q] have b: "2 ^ (bits q - 1) \<le> q" "q < 2 ^ bits q" by simp_all
  have n: "0 < bits q" using q by (simp add: bits_pos)
  have e: "ilog2 x = - int (bits q)" using False by (simp add: ilog2_def q_def y_def)
  have e1: "ilog2 x + 1 = - int (bits q - 1)" using e n by simp
  have "q + 1 \<le> 2 ^ bits q" using b(2) by simp
  then have "(of_int (q + 1) :: rat) \<le> of_int (2 ^ bits q)" by (simp only: of_int_le_iff)
  then have "of_int q + 1 \<le> (2::rat) ^ bits q" by simp
  with qy(2) have "y \<le> 2 ^ bits q" by (rule order_trans)
  then have lo: "1 / 2 ^ bits q \<le> x" using assms by (simp add: y_def field_simps)
  have "(of_int (2 ^ (bits q - 1)) :: rat) \<le> of_int q" using b(1) by (simp only: of_int_le_iff)
  then have "(2::rat) ^ (bits q - 1) \<le> of_int q" by simp
  then have "(2::rat) ^ (bits q - 1) < y" using qy(1) by (rule le_less_trans)
  then have hi: "x < 1 / 2 ^ (bits q - 1)" using assms by (simp add: y_def field_simps)
  have "pow2 (ilog2 x) = 1 / 2 ^ bits q" by (simp only: e pow2_neg_nat)
  moreover have "pow2 (ilog2 x + 1) = 1 / 2 ^ (bits q - 1)" by (simp only: e1 pow2_neg_nat)
  ultimately show ?thesis using lo hi by simp
qed

lemma round_half_even_error: "\<bar>q - of_int (round_half_even q)\<bar> \<le> 1 / 2"
proof -
  define f where "f = \<lfloor>q\<rfloor>"
  have fl: "of_int f \<le> q" "q < of_int f + 1"
    using floor_correct [of q] by (simp_all add: f_def)
  have "\<bar>q - of_int (if q - of_int f < 1 / 2 then f else if 1 / 2 < q - of_int f then f + 1
          else if f mod 2 = 0 then f else f + 1)\<bar> \<le> 1 / 2"
    using fl by (simp add: abs_if)
  then show ?thesis by (simp only: round_half_even_def Let_def f_def)
qed

lemma pow2_pos: "0 < pow2 k"
  by (simp add: pow2_def)

lemma round_double_error:
  assumes "round_double x = Fin y"
  shows "\<bar>x - y\<bar> \<le> pow2 (max (ilog2 \<bar>x\<bar>) (- 1022) - 52) / 2"
proof (cases "x = 0")
  case True
  with assms show ?thesis using pow2_pos [of "max (ilog2 \<bar>x\<bar>) (- 1022) - 52"]
    by (simp add: round_double_def)
next
  case False
  define u where "u = pow2 (max (ilog2 \<bar>x\<bar>) (- 1022) - 52)"
  define m where "m = round_half_even (\<bar>x\<bar> / u)"
  have u: "0 < u" by (simp add: u_def pow2_pos)
  have y: "y = (if x < 0 then - (of_int m * u) else of_int m * u)"
    using assms False by (simp add: round_double_def Let_def u_def m_def split: if_splits)
  have "\<bar>\<bar>x\<bar> / u - of_int m\<bar> \<le> 1 / 2" unfolding m_def by (rule round_half_even_error)
  then have "\<bar>\<bar>x\<bar> / u - of_int m\<bar> * u \<le> 1 / 2 * u" using u by (simp only: mult_right_mono less_imp_le)
  moreover have "\<bar>\<bar>x\<bar> / u - of_int m\<bar> * u = \<bar>\<bar>x\<bar> - of_int m * u\<bar>"
    using u by (simp add: abs_mult [symmetric] field_simps)
  ultimately have "\<bar>\<bar>x\<bar> - of_int m * u\<bar> \<le> u / 2" by simp
  then show ?thesis unfolding u_def [symmetric] y by (auto simp: abs_if split: if_splits)
qed

lemma floor_rat_numeral: "\<lfloor>numeral a / numeral b :: rat\<rfloor> = numeral a div numeral b"
  using floor_divide_of_int_eq [of "numeral a" "numeral b", where ?'a = rat] by simp

lemma ceiling_rat_numeral: "\<lceil>numeral a / numeral b :: rat\<rceil> = - (- numeral a div numeral b)"
  using floor_divide_of_int_eq [of "- numeral a" "numeral b", where ?'a = rat]
  by (simp add: ceiling_def)

lemma round_double_pos:
  "0 < x \<Longrightarrow> round_double x =
     (if pow2 1024 \<le> of_int (round_half_even (x / pow2 (max (ilog2 x) (- 1022) - 52)))
                        * pow2 (max (ilog2 x) (- 1022) - 52)
      then PosInf
      else Fin (of_int (round_half_even (x / pow2 (max (ilog2 x) (- 1022) - 52)))
                * pow2 (max (ilog2 x) (- 1022) - 52)))"
  by (simp add: round_double_def Let_def)

lemmas double_eval = round_double_pos ilog2_def bits.simps pow2_def round_half_even_def Let_def
  floor_rat_numeral ceiling_rat_numeral

text \<open>
  Three known values: \<^verbatim>\<open>0.1\<close>, \<^verbatim>\<open>0.1 + 0.2 = 0.30000000000000004\<close>, and the tie
  \<open>2^53 + 1\<close>, which goes to the even neighbour \<open>2^53\<close>.
\<close>

lemma tenth: "round_double (1 / 10) = Fin (3602879701896397 / 36028797018963968)"
  by (simp add: double_eval)

lemma tenth_plus_fifth:
  "js_add (Fin (3602879701896397 / 36028797018963968)) (Fin (3602879701896397 / 18014398509481984))
     = Fin (1351079888211149 / 4503599627370496)"
  by (simp add: double_eval)

lemma tie_to_even: "round_double 9007199254740993 = Fin 9007199254740992"
  by (simp add: double_eval)

subsection \<open>The revenue of one hundred sales of 0.10\<close>

lemma funpow_10: "((f :: 'a \<Rightarrow> 'a) ^^ 10) x = f (f (f (f (f (f (f (f (f (f x)))))))))"
  by (simp add: numeral_eq_Suc)

lemma funpow_100: "((f :: 'a \<Rightarrow> 'a) ^^ 100) x = ((f ^^ 10) ^^ 10) x"
proof -
  have "((f :: 'a \<Rightarrow> 'a) ^^ 10) ^^ 10 = f ^^ (10 * 10)" by (rule funpow_mult)
  then show ?thesis by simp
qed

lemma hundred_tenths:
  "((\<lambda>r. js_add r (Fin (3602879701896397 / 36028797018963968))) ^^ 100) (Fin 0)
     = Fin (5629499534213109 / 562949953421312)"
  unfolding funpow_100 funpow_10 by (simp add: double_eval)

lemma foldl_replicate: "foldl f a (replicate n x) = ((\<lambda>r. f r x) ^^ n) a"
proof (induction n arbitrary: a)
  case 0
  then show ?case by simp
next
  case (Suc n)
  have "((\<lambda>r. f r x) ^^ n) ((\<lambda>r. f r x) a) = (\<lambda>r. f r x) (((\<lambda>r. f r x) ^^ n) a)"
    by (rule funpow_swap1 [symmetric])
  then show ?case by (simp add: Suc.IH)
qed

lemma revenue_step:
  "revenue (metrics_step cfg m ev) = foldl js_add (revenue m) (revenues [ev])"
  by (cases ev)
     (simp_all add: incrementRequests_def trackActiveUser_def trackAuthAttempt_def
        trackPizzaPurchase_def trackServiceLatency_def sendMetricsToGrafana_begin_def
        sendMetricsToGrafana_resume_def resetLatencies_def Let_def split: option.splits)

lemma revenues_Cons: "revenues (ev # evs) = revenues [ev] @ revenues evs"
  by (cases "ev # evs" rule: revenues.cases) auto

lemma revenue_run: "revenue (metrics_run cfg m evs) = foldl js_add (revenue m) (revenues evs)"
proof (induction evs arbitrary: m)
  case Nil
  then show ?case by (simp add: metrics_run_Nil)
next
  case (Cons ev evs)
  show ?case
    unfolding metrics_run_Cons Cons.IH revenue_step revenues_Cons [of ev evs] by simp
qed

lemma show_100000: "show_nat 100000 = ''100000''"
  by (simp add: show_nat.simps)

lemma toFixed_ten: "toFixed big 4 (Fin (5629499534213109 / 562949953421312)) = ''10.0000''"
proof -
  have n: "nat \<lfloor>\<bar>5629499534213109 / 562949953421312 :: rat\<bar> * 10 ^ 4 + 1 / 2\<rfloor> = 100000"
    by (simp add: floor_rat_numeral)
  have small: "\<not> (10 ^ 21 \<le> \<bar>5629499534213109 / 562949953421312 :: rat\<bar>)" by simp
  show ?thesis
    unfolding toFixed_def jsnum.case Let_def n show_100000 using small by simp
qed

lemma buildMetrics_revenue:
  "metric_line source ''revenue'' (toFixed (exponentNotation h) 4 (revenue m)) ''counter''
     \<in> set (buildMetrics source h m)"
  by (simp add: buildMetrics_def addMetric_def Let_def)

lemma revenues_replicate:
  "revenues (replicate n (TrackPizzaPurchase True latency pizzaCount amount)) = replicate n amount"
  by (induction n) simp_all

text \<open>
  \<^bold>\<open>C6.\<close> Take any run from the start whose successful purchases are one hundred, each
  of the amount \<^verbatim>\<open>0.10\<close> (the double nearest to one tenth). The revenue is then the double
  \<open>9.99999999999998\<close>, less than \<open>10\<^sup>-\<^sup>1\<^sup>3\<close> away from ten, and an export writes it with
  \<^verbatim>\<open>toFixed(4)\<close> as \<^verbatim>\<open>10.0000\<close>.
\<close>

theorem hundred_dimes_export_ten:
  assumes "revenues evs = replicate 100 (round_double (1 / 10))"
  shows "revenue (metrics_run cfg new_Metrics evs) = Fin (5629499534213109 / 562949953421312)
       \<and> \<bar>5629499534213109 / 562949953421312 - 10 :: rat\<bar> < 1 / 10 ^ 13
       \<and> toFixed (exponentNotation h) 4 (revenue (metrics_run cfg new_Metrics evs)) = ''10.0000''
       \<and> metric_line source ''revenue'' ''10.0000'' ''counter''
            \<in> set (buildMetrics source h (metrics_run cfg new_Metrics evs))"
proof -
  have r: "revenue (metrics_run cfg new_Metrics evs) = Fin (5629499534213109 / 562949953421312)"
    unfolding revenue_run assms foldl_replicate tenth
    using hundred_tenths by (simp add: new_Metrics_def)
  have t: "toFixed (exponentNotation h) 4 (revenue (metrics_run cfg new_Metrics evs)) = ''10.0000''"
    unfolding r by (rule toFixed_ten)
  have l: "metric_line source ''revenue'' ''10.0000'' ''counter''
            \<in> set (buildMetrics source h (metrics_run cfg new_Metrics evs))"
    using buildMetrics_revenue [of source h "metrics_run cfg new_Metrics evs"] unfolding t .
  have d: "\<bar>5629499534213109 / 562949953421312 - 10 :: rat\<bar> < 1 / 10 ^ 13" by simp
  show ?thesis using r d t l by blast
qed

theorem hundred_dimes_export_ten_witness:
  "revenues (replicate 100 (TrackPizzaPurchase True None 1 (round_double (1 / 10))))
     = replicate 100 (round_double (1 / 10))
   \<and> toFixed (exponentNotation example_host) 4
       (revenue (metrics_run example_config new_Metrics
          (replicate 100 (TrackPizzaPurchase True None 1 (round_double (1 / 10)))))) = ''10.0000''"
proof -
  have h: "revenues (replicate 100 (TrackPizzaPurchase True None 1 (round_double (1 / 10))))
     = replicate 100 (round_double (1 / 10))"
    by (rule revenues_replicate)
  show ?thesis
    using h hundred_dimes_export_ten [where cfg = example_config and h = example_host, OF h]
    by blast
qed

end
